theory Spec2Isabelle
  imports Main "HOL-Library.AList" "HOL-Library.Char_ord" "HOL-Library.List_Lexorder"
    "HOL-Library.Multiset"
begin

section \<open>Objects, dictionaries and the visualizer state\<close>

text \<open>
  \<^verbatim>\<open>DFAState\<close> objects of \<^verbatim>\<open>dfa_visualizer.py\<close> are compared and hashed by identity and are
  shared between the \<^verbatim>\<open>states\<close> dictionary, the transition dictionaries and the fields
  \<^verbatim>\<open>start_state\<close>, \<^verbatim>\<open>current_state\<close>, \<^verbatim>\<open>selected_state\<close>. The model keeps an explicit object
  store: a reference is an index into the list of all objects ever created, and creating an
  object appends to that list. The \<^verbatim>\<open>position\<close> field and the canvas are drawing only and
  are left out.

  A Python \<^verbatim>\<open>dict\<close> keeps insertion order: it is an association list, \<^verbatim>\<open>d[k] = v\<close> is
  \<^const>\<open>AList.update\<close> (replace in place, else append), \<^verbatim>\<open>del d[k]\<close> is \<^const>\<open>AList.delete\<close>,
  \<^verbatim>\<open>d.get(k)\<close> is \<^const>\<open>map_of\<close>.
\<close>

type_synonym ref = nat

record DFAState =
  name :: string
  is_accepting :: bool
  transitions :: "(string \<times> ref) list"

record Token =
  tok_type :: string
  tok_value :: string
  tok_line :: int
  tok_column :: int

record DFAVisualizer =
  heap :: "DFAState list"
  states :: "(string \<times> ref) list"
  start_state :: "ref option"
  current_state :: "ref option"
  selected_state :: "ref option"
  animation_step :: nat
  animation_sequence :: "string list"
  tokens :: "Token list"


definition new_DFAState :: "string \<Rightarrow> bool \<Rightarrow> DFAState" where
  "new_DFAState nm acc = \<lparr>name = nm, is_accepting = acc, transitions = []\<rparr>"

definition init_visualizer :: DFAVisualizer where
  "init_visualizer =
     \<lparr>heap = [new_DFAState ''START'' False], states = [(''START'', 0)],
      start_state = Some 0, current_state = None, selected_state = None,
      animation_step = 0, animation_sequence = [], tokens = []\<rparr>"

definition dict_values :: "('k \<times> 'v) list \<Rightarrow> 'v list" where
  "dict_values d = map snd d"

section \<open>Simulator: \<^verbatim>\<open>reset_animation\<close> and \<^verbatim>\<open>step_animation\<close>\<close>

definition reset_animation :: "DFAVisualizer \<Rightarrow> DFAVisualizer" where
  "reset_animation v = v\<lparr>animation_step := 0, current_state := start_state v\<rparr>"

text \<open>
  \<^verbatim>\<open>step_animation\<close> returns the new visualizer state and the verdict it prints, if any:
  \<open>Some True\<close> for "Input accepted by DFA", \<open>Some False\<close> for "Input rejected by DFA",
  \<open>None\<close> when the call prints no verdict. Editor highlighting is not modelled.
\<close>

definition step_animation :: "DFAVisualizer \<Rightarrow> DFAVisualizer \<times> bool option" where
  "step_animation v =
    (if animation_sequence v = [] \<or> tokens v = [] then (v, None)
     else if animation_step v \<ge> length (animation_sequence v) then (reset_animation v, None)
     else
       (let token_value = animation_sequence v ! animation_step v;
            cur = (case current_state v of None \<Rightarrow> start_state v | Some c \<Rightarrow> Some c);
            cur' = (case cur of None \<Rightarrow> None
                    | Some c \<Rightarrow> map_of (transitions (heap v ! c)) token_value);
            v' = v\<lparr>current_state := cur', animation_step := animation_step v + 1\<rparr>
        in if animation_step v' \<ge> length (animation_sequence v') \<or> cur' = None
           then (v', Some (case cur' of None \<Rightarrow> False
                           | Some c \<Rightarrow> is_accepting (heap v' ! c)))
           else (v', None)))"

text \<open>
  Driving the simulator: \<open>run n v\<close> presses Step up to \<open>n\<close> times and returns the first
  verdict printed, \<open>None\<close> if none of the \<open>n\<close> calls prints one. \<open>simulate n v w\<close> loads
  the symbol sequence \<open>w\<close>, resets, and runs.
\<close>

fun run :: "nat \<Rightarrow> DFAVisualizer \<Rightarrow> bool option" where
  "run 0 v = None"
| "run (Suc n) v =
     (case step_animation v of
        (v', Some b) \<Rightarrow> Some b
      | (v', None) \<Rightarrow> run n v')"

definition simulate :: "nat \<Rightarrow> DFAVisualizer \<Rightarrow> string list \<Rightarrow> bool option" where
  "simulate n v w = run n (reset_animation (v\<lparr>animation_sequence := w\<rparr>))"

section \<open>Editing: \<^verbatim>\<open>_delete_state\<close>\<close>

definition filter_transitions :: "ref \<Rightarrow> DFAState list \<Rightarrow> ref \<Rightarrow> DFAState list" where
  "filter_transitions sel h r =
     h[r := (h ! r)\<lparr>transitions := filter (\<lambda>(k, t). t \<noteq> sel) (transitions (h ! r))\<rparr>]"

text \<open>
  The loop \<^verbatim>\<open>for state in self.states.values()\<close> of \<^verbatim>\<open>_delete_state\<close>; \<open>delete_state_heaps\<close>
  lists the object store before the loop and after each of its iterations.

  \<^verbatim>\<open>_delete_state\<close> returns nothing and has no error value of its own: the only way it can
  report a failure is a Python exception. \<open>Inl\<close> is an exception that leaves the method (the
  \<^verbatim>\<open>KeyError\<close> of \<^verbatim>\<open>del self.states[...]\<close>), \<open>Inr\<close> is the normal return, with the visualizer as
  the method leaves it. When the guard \<^verbatim>\<open>self.selected_state and self.selected_state !=
  self.start_state\<close> is false the method returns normally, having done nothing.
\<close>

definition delete_state_loop :: "ref \<Rightarrow> DFAState list \<Rightarrow> ref list \<Rightarrow> DFAState list" where
  "delete_state_loop sel h rs = foldl (filter_transitions sel) h rs"



text \<open>No transition of a state in the dictionary targets an object outside it.\<close>

definition no_dangling :: "DFAState list \<Rightarrow> (string \<times> ref) list \<Rightarrow> bool" where
  "no_dangling h d =
     (\<forall>r \<in> set (dict_values d). \<forall>t \<in> set (dict_values (transitions (h ! r))).
        t \<in> set (dict_values d))"

section \<open>Rebuilding from tokens: \<^verbatim>\<open>update_dfa\<close>\<close>

text \<open>
  \<^verbatim>\<open>token_types\<close> is a Python set of strings, whose iteration order is not fixed by the
  language; the order used is the parameter \<open>type_order\<close>.
\<close>

fun add_token_state :: "ref \<Rightarrow> DFAState list \<times> (string \<times> ref) list \<Rightarrow> string
    \<Rightarrow> DFAState list \<times> (string \<times> ref) list" where
  "add_token_state start (h, d) token_type =
     (let r = length h;
          h1 = h @ [new_DFAState token_type True];
          d1 = AList.update token_type r d;
          h2 = h1[start := (h1 ! start)
                  \<lparr>transitions := AList.update token_type r (transitions (h1 ! start))\<rparr>]
      in (h2, d1))"

definition update_dfa :: "string list \<Rightarrow> Token list \<Rightarrow> DFAVisualizer \<Rightarrow> DFAVisualizer" where
  "update_dfa type_order toks v =
     (let start = length (heap v);
          h0 = heap v @ [new_DFAState ''START'' False];
          d0 = [(''START'', start)];
          (h1, d1) = foldl (add_token_state start) (h0, d0) type_order
      in reset_animation
           (v\<lparr>tokens := toks, heap := h1, states := d1, start_state := Some start\<rparr>))"

definition token_types_order :: "Token list \<Rightarrow> string list \<Rightarrow> bool" where
  "token_types_order toks type_order \<longleftrightarrow>
     distinct type_order \<and> set type_order = set (map tok_type toks)"

section \<open>Minimizer: \<^verbatim>\<open>minimize_dfa\<close>\<close>

text \<open>
  A partition block is a Python set in the initial list and a Python list afterwards
  (\<^verbatim>\<open>groups.values()\<close>). A set carries the order in which Python iterates it, which the
  language does not fix for objects hashed by identity. Python's \<^verbatim>\<open>==\<close> never equates a
  set with a list, compares sets by their elements and lists position by position.
\<close>

datatype block = PySet "ref list" | PyList "ref list"

fun members :: "block \<Rightarrow> ref list" where
  "members (PySet xs) = xs"
| "members (PyList xs) = xs"

fun block_eq :: "block \<Rightarrow> block \<Rightarrow> bool" where
  "block_eq (PySet xs) (PySet ys) \<longleftrightarrow> set xs = set ys"
| "block_eq (PyList xs) (PyList ys) \<longleftrightarrow> xs = ys"
| "block_eq (PySet xs) (PyList ys) \<longleftrightarrow> False"
| "block_eq (PyList xs) (PySet ys) \<longleftrightarrow> False"

definition partitions_eq :: "block list \<Rightarrow> block list \<Rightarrow> bool" where
  "partitions_eq ps qs = list_all2 block_eq ps qs"

text \<open>\<^verbatim>\<open>sorted(list(alphabet))\<close>, the alphabet being the union of all transition keys.\<close>

definition sorted_alphabet :: "DFAState list \<Rightarrow> (string \<times> ref) list \<Rightarrow> string list" where
  "sorted_alphabet h d =
     sort (remdups (concat (map (\<lambda>r. map fst (transitions (h ! r))) (dict_values d))))"

text \<open>The \<^verbatim>\<open>enumerate\<close> loop with \<^verbatim>\<open>break\<close>: index of the first partition holding the state.\<close>

fun partition_index :: "block list \<Rightarrow> ref \<Rightarrow> nat \<Rightarrow> int" where
  "partition_index [] t i = - 1"
| "partition_index (p # ps) t i =
     (if t \<in> set (members p) then int i else partition_index ps t (Suc i))"

definition transition_key :: "DFAState list \<Rightarrow> string list \<Rightarrow> block list \<Rightarrow> ref \<Rightarrow> int list" where
  "transition_key h alphabet partitions s =
     map (\<lambda>symbol. case map_of (transitions (h ! s)) symbol of
                      None \<Rightarrow> - 1
                    | Some next_state \<Rightarrow> partition_index partitions next_state 0)
         alphabet"

text \<open>\<^verbatim>\<open>if key not in groups: groups[key] = []\<close>, then \<^verbatim>\<open>groups[key].append(state)\<close>.\<close>

fun add_to_group :: "int list \<Rightarrow> ref \<Rightarrow> (int list \<times> ref list) list \<Rightarrow> (int list \<times> ref list) list" where
  "add_to_group key s [] = [(key, [s])]"
| "add_to_group key s ((k, g) # groups) =
     (if k = key then (k, g @ [s]) # groups else (k, g) # add_to_group key s groups)"

definition group_states ::
    "DFAState list \<Rightarrow> string list \<Rightarrow> block list \<Rightarrow> ref list \<Rightarrow> (int list \<times> ref list) list" where
  "group_states h alphabet partitions xs =
     foldl (\<lambda>groups s. add_to_group (transition_key h alphabet partitions s) s groups) [] xs"

definition refine_block :: "DFAState list \<Rightarrow> string list \<Rightarrow> block list \<Rightarrow> block \<Rightarrow> block list" where
  "refine_block h alphabet partitions p =
     (if members p = [] then [p]
      else map (\<lambda>(k, g). PyList g) (group_states h alphabet partitions (members p)))"

definition refine_round :: "DFAState list \<Rightarrow> string list \<Rightarrow> block list \<Rightarrow> block list" where
  "refine_round h alphabet partitions =
     concat (map (refine_block h alphabet partitions) partitions)"

text \<open>
  The \<^verbatim>\<open>while new_partitions != partitions\<close> loop. The result is an option so that a run
  of the loop that never ends is the value \<open>None\<close>.
\<close>

partial_function (option) refine_loop ::
    "DFAState list \<Rightarrow> string list \<Rightarrow> block list \<Rightarrow> block list \<Rightarrow> block list option" where
  "refine_loop h alphabet partitions new_partitions =
     (if \<not> partitions_eq new_partitions partitions then
        (let partitions' = (if new_partitions \<noteq> [] then new_partitions else partitions)
         in refine_loop h alphabet partitions' (refine_round h alphabet partitions'))
      else Some new_partitions)"

declare refine_loop.simps [code]

definition initial_partitions :: "ref list \<Rightarrow> ref list \<Rightarrow> block list" where
  "initial_partitions non_accepting_states accepting_states =
     [PySet non_accepting_states, PySet accepting_states]"

text \<open>
  \<open>set_orders v na acc\<close>: \<open>na\<close> and \<open>acc\<close> enumerate, each state once, the sets
  \<^verbatim>\<open>non_accepting_states\<close> and \<^verbatim>\<open>accepting_states\<close> built from \<^verbatim>\<open>self.states.values()\<close>.
\<close>

definition set_orders :: "DFAVisualizer \<Rightarrow> ref list \<Rightarrow> ref list \<Rightarrow> bool" where
  "set_orders v na acc \<longleftrightarrow>
     distinct na \<and> distinct acc \<and>
     set na = set (filter (\<lambda>r. \<not> is_accepting (heap v ! r)) (dict_values (states v))) \<and>
     set acc = set (filter (\<lambda>r. is_accepting (heap v ! r)) (dict_values (states v)))"

subsection \<open>Building the minimized states\<close>

record minimizer_maps =
  m_heap :: "DFAState list"
  minimized_states :: "(string \<times> ref) list"
  partition_to_state :: "(nat \<times> ref) list"
  original_to_minimized :: "(ref \<times> ref) list"

fun join :: "string \<Rightarrow> string list \<Rightarrow> string" where
  "join sep [] = []"
| "join sep [x] = x"
| "join sep (x # y # ys) = x @ sep @ join sep (y # ys)"

definition new_state_name :: "DFAState list \<Rightarrow> block \<Rightarrow> string" where
  "new_state_name h part = join '', '' (sort (map (\<lambda>s. name (h ! s)) (members part)))"

definition create_state :: "minimizer_maps \<Rightarrow> nat \<times> block \<Rightarrow> minimizer_maps" where
  "create_state m ip =
     (case ip of (i, part) \<Rightarrow>
        if members part = [] then m
        else
          (let h = m_heap m;
               nm = new_state_name h part;
               is_accepting_state = list_ex (\<lambda>s. is_accepting (h ! s)) (members part);
               minimized_state = length h
           in \<lparr>m_heap = h @ [new_DFAState nm is_accepting_state],
               minimized_states = AList.update nm minimized_state (minimized_states m),
               partition_to_state = AList.update i minimized_state (partition_to_state m),
               original_to_minimized =
                 foldl (\<lambda>o2m original_state. AList.update original_state minimized_state o2m)
                       (original_to_minimized m) (members part)\<rparr>))"

definition set_transition ::
    "(ref \<times> ref) list \<Rightarrow> ref \<Rightarrow> DFAState list \<Rightarrow> string \<times> ref \<Rightarrow> DFAState list" where
  "set_transition o2m minimized_state h sn =
     (case sn of (symbol, next_original_state) \<Rightarrow>
        (case map_of o2m next_original_state of
           None \<Rightarrow> h
         | Some next_minimized_state \<Rightarrow>
             h[minimized_state := (h ! minimized_state)
                 \<lparr>transitions := AList.update symbol next_minimized_state
                                   (transitions (h ! minimized_state))\<rparr>]))"

text \<open>
  The second loop over \<^verbatim>\<open>enumerate(new_partitions)\<close>. \<^verbatim>\<open>partition_to_state[i]\<close> was stored by
  the first loop for every non-empty partition, so the lookup cannot raise.
\<close>

definition define_transitions :: "minimizer_maps \<Rightarrow> DFAState list \<Rightarrow> nat \<times> block \<Rightarrow> DFAState list" where
  "define_transitions m h ip =
     (case ip of (i, part) \<Rightarrow>
        (case members part of
           [] \<Rightarrow> h
         | original_state_in_partition # _ \<Rightarrow>
             (case map_of (partition_to_state m) i of
                None \<Rightarrow> h
              | Some minimized_state \<Rightarrow>
                  foldl (set_transition (original_to_minimized m) minimized_state) h
                        (transitions (h ! original_state_in_partition)))))"

definition build_minimized :: "DFAState list \<Rightarrow> block list \<Rightarrow> minimizer_maps" where
  "build_minimized h new_partitions =
     (let m = foldl create_state
                \<lparr>m_heap = h, minimized_states = [], partition_to_state = [],
                 original_to_minimized = []\<rparr>
                (enumerate 0 new_partitions)
      in m\<lparr>m_heap := foldl (define_transitions m) (m_heap m) (enumerate 0 new_partitions)\<rparr>)"

definition find_new_start :: "ref option \<Rightarrow> block list \<Rightarrow> (ref \<times> ref) list \<Rightarrow> ref option" where
  "find_new_start start new_partitions o2m =
     (case start of
        None \<Rightarrow> None
      | Some s \<Rightarrow> if list_ex (\<lambda>p. s \<in> set (members p)) new_partitions then map_of o2m s else None)"

definition rename :: "DFAState list \<Rightarrow> ref \<Rightarrow> string \<Rightarrow> DFAState list" where
  "rename h r nm = h[r := (h ! r)\<lparr>name := nm\<rparr>]"

text \<open>The tail of \<^verbatim>\<open>minimize_dfa\<close> from "Find the new start state" on.\<close>

definition fix_start ::
    "ref option \<Rightarrow> block list \<Rightarrow> minimizer_maps \<Rightarrow> DFAState list \<times> (string \<times> ref) list" where
  "fix_start start new_partitions m =
     (let h = m_heap m; ms = minimized_states m in
      case find_new_start start new_partitions (original_to_minimized m) of
        None \<Rightarrow> (h, ms)
      | Some new_start_state \<Rightarrow>
          (case map_of ms ''START'' of
             Some s \<Rightarrow>
               if s \<noteq> new_start_state then
                 (let original_name = name (h ! new_start_state)
                  in (rename h new_start_state ''START'',
                      AList.delete original_name (AList.update ''START'' new_start_state ms)))
               else (h, ms)
           | None \<Rightarrow>
               (rename h new_start_state ''START'',
                AList.update ''START'' new_start_state ms)))"

definition minimize_dfa ::
    "ref list \<Rightarrow> ref list \<Rightarrow> DFAVisualizer \<Rightarrow> (DFAState list \<times> (string \<times> ref) list) option" where
  "minimize_dfa non_accepting_states accepting_states v =
     (case refine_loop (heap v) (sorted_alphabet (heap v) (states v))
             (initial_partitions non_accepting_states accepting_states) [] of
        None \<Rightarrow> None
      | Some new_partitions \<Rightarrow>
          Some (fix_start (start_state v) new_partitions
                  (build_minimized (heap v) new_partitions)))"

text \<open>
  \<^verbatim>\<open>_on_minimize_button_click\<close>: the start state is the first state of the returned
  dictionary named START, else the first state of the dictionary.
\<close>

definition on_minimize_button_click ::
    "ref list \<Rightarrow> ref list \<Rightarrow> DFAVisualizer \<Rightarrow> DFAVisualizer option" where
  "on_minimize_button_click non_accepting_states accepting_states v =
     (case minimize_dfa non_accepting_states accepting_states v of
        None \<Rightarrow> None
      | Some (h', minimized) \<Rightarrow>
          Some (v\<lparr>heap := h', states := minimized,
                  start_state :=
                    (case find (\<lambda>r. name (h' ! r) = ''START'') (dict_values minimized) of
                       Some r \<Rightarrow> Some r
                     | None \<Rightarrow> (case dict_values minimized of [] \<Rightarrow> None | r # _ \<Rightarrow> Some r))\<rparr>))"

section \<open>Well-formed automata and example automata\<close>

text \<open>
  A well-formed automaton: state ids are unique and each state is stored under its own
  name, every reference is live, every transition dictionary has unique keys, no
  transition leaves the automaton, and the start state is one of the states.
\<close>

definition well_formed :: "DFAVisualizer \<Rightarrow> bool" where
  "well_formed v \<longleftrightarrow>
     distinct (map fst (states v)) \<and>
     (\<forall>(k, r) \<in> set (states v).
        r < length (heap v) \<and> name (heap v ! r) = k \<and>
        distinct (map fst (transitions (heap v ! r)))) \<and>
     no_dangling (heap v) (states v) \<and>
     (case start_state v of None \<Rightarrow> False | Some s \<Rightarrow> s \<in> set (dict_values (states v)))"

text \<open>
  Scenario A of the specification: START --a--> A, START --b--> B, with A and B accepting.
\<close>

definition scenario_A :: DFAVisualizer where
  "scenario_A =
     \<lparr>heap = [\<lparr>name = ''START'', is_accepting = False, transitions = [(''a'', 1), (''b'', 2)]\<rparr>,
              new_DFAState ''A'' True, new_DFAState ''B'' True],
      states = [(''START'', 0), (''A'', 1), (''B'', 2)],
      start_state = Some 0, current_state = None, selected_state = None,
      animation_step = 0, animation_sequence = [],
      tokens = [\<lparr>tok_type = ''identifier'', tok_value = ''a'', tok_line = 1, tok_column = 1\<rparr>]\<rparr>"

text \<open>The initial automaton after the user has added a state X with Add State.\<close>

definition start_and_X :: DFAVisualizer where
  "start_and_X =
     \<lparr>heap = [new_DFAState ''START'' False, new_DFAState ''X'' False],
      states = [(''START'', 0), (''X'', 1)],
      start_state = Some 0, current_state = None, selected_state = None,
      animation_step = 0, animation_sequence = [], tokens = []\<rparr>"

section \<open>Notions used in the proofs\<close>

text \<open>The grouping loop of a refinement round, started from any dictionary of groups.\<close>

definition grouping ::
    "(ref \<Rightarrow> int list) \<Rightarrow> (int list \<times> ref list) list \<Rightarrow> ref list
      \<Rightarrow> (int list \<times> ref list) list" where
  "grouping f acc xs = foldl (\<lambda>groups s. add_to_group (f s) s groups) acc xs"

text \<open>
  A measure on partition lists that every refinement round which changes the list
  decreases; the empty blocks of a list; all members of a list.
\<close>

fun block_weight :: "block \<Rightarrow> nat" where
  "block_weight (PySet xs) = 2 * length xs - 1"
| "block_weight (PyList xs) = 2 * length xs - 2"

definition weight :: "block list \<Rightarrow> nat" where
  "weight ps = sum_list (map block_weight ps)"

definition empty_blocks :: "block list \<Rightarrow> block list" where
  "empty_blocks ps = filter (\<lambda>p. members p = []) ps"

definition all_members :: "block list \<Rightarrow> ref list" where
  "all_members ps = concat (map members ps)"

text \<open>
  Invariants of the partition list: all states of a block agree on acceptance
  (\<open>homogeneous\<close>); all states of a block have the same transition key (\<open>stable\<close>, what a
  fixed point of the refinement gives); every member of a block is a live reference
  (\<open>live_blocks\<close>).
\<close>

definition homogeneous :: "DFAState list \<Rightarrow> block list \<Rightarrow> bool" where
  "homogeneous h ps \<longleftrightarrow>
     (\<forall>p \<in> set ps. \<forall>x \<in> set (members p). \<forall>y \<in> set (members p).
        is_accepting (h ! x) = is_accepting (h ! y))"

definition stable :: "DFAState list \<Rightarrow> string list \<Rightarrow> block list \<Rightarrow> bool" where
  "stable h alphabet ps \<longleftrightarrow>
     (\<forall>p \<in> set ps. \<forall>x \<in> set (members p). \<forall>y \<in> set (members p).
        transition_key h alphabet ps x = transition_key h alphabet ps y)"

text \<open>
  The first loop of the construction, \<open>created\<close>, gives one new object to every non-empty
  block, in order: the \<open>j\<close>-th block of \<open>nonempty ps\<close> gets the reference \<open>length h + j\<close> and
  the object \<open>new_state_for h p\<close>; the second loop turns it into \<open>minimized_state_for h o2m p\<close>.
\<close>

definition nonempty :: "block list \<Rightarrow> block list" where
  "nonempty ps = filter (\<lambda>p. members p \<noteq> []) ps"

definition new_state_for :: "DFAState list \<Rightarrow> block \<Rightarrow> DFAState" where
  "new_state_for h p =
     new_DFAState (new_state_name h p) (list_ex (\<lambda>s. is_accepting (h ! s)) (members p))"

definition live_blocks :: "DFAState list \<Rightarrow> block list \<Rightarrow> bool" where
  "live_blocks h ps \<longleftrightarrow> (\<forall>p \<in> set ps. \<forall>s \<in> set (members p). s < length h)"

definition created :: "DFAState list \<Rightarrow> block list \<Rightarrow> minimizer_maps" where
  "created h ps =
     foldl create_state
       \<lparr>m_heap = h, minimized_states = [], partition_to_state = [], original_to_minimized = []\<rparr>
       (enumerate 0 ps)"

definition put_transition ::
    "(ref \<times> ref) list \<Rightarrow> (string \<times> ref) list \<Rightarrow> string \<times> ref \<Rightarrow> (string \<times> ref) list" where
  "put_transition o2m tr sn =
     (case sn of (symbol, nxt) \<Rightarrow>
        (case map_of o2m nxt of None \<Rightarrow> tr | Some nm \<Rightarrow> AList.update symbol nm tr))"

definition minimized_state_for :: "DFAState list \<Rightarrow> (ref \<times> ref) list \<Rightarrow> block \<Rightarrow> DFAState" where
  "minimized_state_for h o2m p =
     (new_state_for h p)
       \<lparr>transitions := foldl (put_transition o2m) [] (transitions (h ! hd (members p)))\<rparr>"

text \<open>
  \<open>simulated_by h S H \<mu>\<close>: the map \<open>\<mu>\<close> sends every state \<open>q\<close> of \<open>S\<close> (in the store \<open>h\<close>) to
  an object of the store \<open>H\<close> that accepts iff \<open>q\<close> does and whose transition on any symbol
  leads to the image of \<open>q\<close>'s transition, and is missing iff \<open>q\<close>'s is. \<open>lift\<close> carries a
  visualizer state over to the minimized automaton; \<open>next_state u\<close> is what
  \<^verbatim>\<open>step_animation\<close> assigns to \<^verbatim>\<open>current_state\<close> when the cursor is inside the sequence.
\<close>

definition simulated_by ::
    "DFAState list \<Rightarrow> ref set \<Rightarrow> DFAState list \<Rightarrow> (ref \<Rightarrow> ref option) \<Rightarrow> bool" where
  "simulated_by h S H \<mu> \<longleftrightarrow>
     (\<forall>q \<in> S. \<exists>m. \<mu> q = Some m \<and> is_accepting (H ! m) = is_accepting (h ! q) \<and>
        (\<forall>a. map_of (transitions (H ! m)) a =
               (case map_of (transitions (h ! q)) a of None \<Rightarrow> None | Some t \<Rightarrow> \<mu> t)) \<and>
        (\<forall>a t. map_of (transitions (h ! q)) a = Some t \<longrightarrow> t \<in> S))"

definition lift ::
    "DFAState list \<Rightarrow> (string \<times> ref) list \<Rightarrow> (ref \<Rightarrow> ref option) \<Rightarrow> ref
      \<Rightarrow> DFAVisualizer \<Rightarrow> DFAVisualizer" where
  "lift H D \<mu> s u =
     u\<lparr>heap := H, states := D, start_state := \<mu> s,
       current_state := (case current_state u of None \<Rightarrow> None | Some q \<Rightarrow> \<mu> q)\<rparr>"

definition next_state :: "DFAVisualizer \<Rightarrow> ref option" where
  "next_state u =
     (case (case current_state u of None \<Rightarrow> start_state u | Some c \<Rightarrow> Some c) of
        None \<Rightarrow> None
      | Some c \<Rightarrow> map_of (transitions (heap u ! c))
                   (animation_sequence u ! animation_step u))"

section \<open>The simulator\<close>

lemma step_animation_at_end:
  "animation_sequence v \<noteq> [] \<Longrightarrow> tokens v \<noteq> [] \<Longrightarrow>
   length (animation_sequence v) \<le> animation_step v \<Longrightarrow>
   step_animation v = (reset_animation v, None)"
  by (simp add: step_animation_def)

lemma step_animation_empty:
  "animation_sequence v = [] \<Longrightarrow> step_animation v = (v, None)"
  by (simp add: step_animation_def)

lemma run_empty: "animation_sequence v = [] \<Longrightarrow> run n v = None"
  by (induction n) (simp_all add: step_animation_empty)

text \<open>
  Claim C2, as stated: once the simulator has halted, a further step changes neither the
  current state nor the cursor and reports the same verdict again. In Scenario A with the
  sequence \<open>[a]\<close> the first step halts with the verdict accept, at cursor 1 in state A; the
  second step reports no verdict and puts the simulator back at cursor 0 in the start state.
\<close>

theorem step_after_halt_counterexample:
  "step_animation (reset_animation (scenario_A\<lparr>animation_sequence := [''a'']\<rparr>))
     = (scenario_A\<lparr>animation_sequence := [''a''], current_state := Some 1, animation_step := 1\<rparr>,
        Some True) \<and>
   step_animation
       (scenario_A\<lparr>animation_sequence := [''a''], current_state := Some 1, animation_step := 1\<rparr>)
     = (scenario_A\<lparr>animation_sequence := [''a''], current_state := Some 0, animation_step := 0\<rparr>,
        None)"
  by (simp add: scenario_A_def step_animation_def reset_animation_def new_DFAState_def Let_def)

text \<open>
  Claim C2, amended: once the cursor has passed the end of a non-empty symbol sequence
  (the token list being non-empty too), a further step is \<^verbatim>\<open>reset_animation\<close>: the cursor
  returns to 0, the current state to the start state, and no verdict is reported.
\<close>

theorem step_after_end_resets:
  "animation_sequence v \<noteq> [] \<and> tokens v \<noteq> [] \<and>
   length (animation_sequence v) \<le> animation_step v \<longrightarrow>
     step_animation v = (reset_animation v, None) \<and>
     animation_step (fst (step_animation v)) = 0 \<and>
     current_state (fst (step_animation v)) = start_state v"
  by (simp add: step_animation_at_end reset_animation_def)

theorem step_after_end_resets_witness:
  "animation_sequence
     (scenario_A\<lparr>animation_sequence := [''a''], current_state := Some 1, animation_step := 1\<rparr>) \<noteq> [] \<and>
   tokens
     (scenario_A\<lparr>animation_sequence := [''a''], current_state := Some 1, animation_step := 1\<rparr>) \<noteq> [] \<and>
   animation_step (fst (step_animation
     (scenario_A\<lparr>animation_sequence := [''a''], current_state := Some 1, animation_step := 1\<rparr>))) = 0 \<and>
   current_state (fst (step_animation
     (scenario_A\<lparr>animation_sequence := [''a''], current_state := Some 1, animation_step := 1\<rparr>))) = Some 0"
proof -
  let ?v = "scenario_A\<lparr>animation_sequence := [''a''], current_state := Some 1, animation_step := 1\<rparr>"
  have h: "animation_sequence ?v \<noteq> [] \<and> tokens ?v \<noteq> [] \<and>
           length (animation_sequence ?v) \<le> animation_step ?v"
    by (simp add: scenario_A_def)
  have s: "start_state ?v = Some 0"
    by (simp add: scenario_A_def)
  from step_after_end_resets[of ?v, THEN mp, OF h]
  have c: "animation_step (fst (step_animation ?v)) = 0"
    "current_state (fst (step_animation ?v)) = start_state ?v"
    by blast+
  from h c s show ?thesis
    by metis
qed

text \<open>
  Claim C3: a missing transition is an immediate and permanent rejection that consumes no
  further symbol. In Scenario A with the sequence \<open>[c, a]\<close> the first step finds no
  transition on \<open>c\<close> and reports reject, leaving \<^verbatim>\<open>current_state\<close> at \<^verbatim>\<open>None\<close> and the cursor
  at 1; the second step takes \<^verbatim>\<open>None\<close> for "not started", restarts from the start state,
  consumes \<open>a\<close> and reports accept.
\<close>

theorem step_after_missing_transition_resumes:
  "step_animation (reset_animation (scenario_A\<lparr>animation_sequence := [''c'', ''a'']\<rparr>))
     = (scenario_A\<lparr>animation_sequence := [''c'', ''a''], current_state := None,
                    animation_step := 1\<rparr>, Some False) \<and>
   step_animation
       (scenario_A\<lparr>animation_sequence := [''c'', ''a''], current_state := None,
                    animation_step := 1\<rparr>)
     = (scenario_A\<lparr>animation_sequence := [''c'', ''a''], current_state := Some 1,
                    animation_step := 2\<rparr>, Some True)"
  by (simp add: scenario_A_def step_animation_def reset_animation_def new_DFAState_def Let_def)

text \<open>
  Claim C4, as stated: simulating the empty sequence yields a verdict, accept iff the start
  state is accepting. With the start state of Scenario A made accepting, a step on the empty
  sequence after reset reports no verdict, and so does any number of steps.
\<close>

theorem empty_sequence_counterexample:
  "is_accepting
     (heap (scenario_A\<lparr>heap := (heap scenario_A)[0 := (heap scenario_A ! 0)\<lparr>is_accepting := True\<rparr>]\<rparr>) ! 0) \<and>
   start_state
     (scenario_A\<lparr>heap := (heap scenario_A)[0 := (heap scenario_A ! 0)\<lparr>is_accepting := True\<rparr>]\<rparr>) = Some 0 \<and>
   snd (step_animation (reset_animation
     (scenario_A\<lparr>heap := (heap scenario_A)[0 := (heap scenario_A ! 0)\<lparr>is_accepting := True\<rparr>],
                  animation_sequence := []\<rparr>))) = None \<and>
   simulate 3
     (scenario_A\<lparr>heap := (heap scenario_A)[0 := (heap scenario_A ! 0)\<lparr>is_accepting := True\<rparr>]\<rparr>) []
     \<noteq> Some True"
  by (simp add: scenario_A_def step_animation_def reset_animation_def simulate_def
      numeral_3_eq_3)

text \<open>
  Claim C4, amended: for every automaton, a step on the empty symbol sequence is a no-op:
  after reset it leaves the cursor at 0 and the current state at the start state, and it
  reports no verdict, however often Step is pressed.
\<close>

theorem empty_sequence_no_verdict:
  "step_animation (reset_animation (v\<lparr>animation_sequence := []\<rparr>))
     = (reset_animation (v\<lparr>animation_sequence := []\<rparr>), None) \<and>
   animation_step (reset_animation (v\<lparr>animation_sequence := []\<rparr>)) = 0 \<and>
   current_state (reset_animation (v\<lparr>animation_sequence := []\<rparr>)) = start_state v \<and>
   simulate n v [] = None"
  by (simp add: step_animation_empty run_empty simulate_def reset_animation_def)

section \<open>Rebuilding the automaton from tokens\<close>

lemma add_token_state_fold:
  "start < length h \<Longrightarrow> foldl (add_token_state start) (h, d) ts = (h', d') \<Longrightarrow>
     length h \<le> length h' \<and> name (h' ! start) = name (h ! start) \<and>
     is_accepting (h' ! start) = is_accepting (h ! start)"
proof (induction ts arbitrary: h d)
  case Nil
  then show ?case by simp
next
  case (Cons t ts)
  let ?h1 = "h @ [new_DFAState t True]"
  let ?h2 = "?h1[start := (?h1 ! start)\<lparr>transitions := AList.update t (length h) (transitions (?h1 ! start))\<rparr>]"
  have step: "add_token_state start (h, d) t = (?h2, AList.update t (length h) d)"
    by (simp add: Let_def)
  have len: "start < length ?h2" using Cons.prems(1) by simp
  from Cons.prems(2) have "foldl (add_token_state start) (?h2, AList.update t (length h) d) ts = (h', d')"
    by (simp only: foldl_Cons step)
  from Cons.IH[OF len this] Cons.prems(1) show ?case
    by (simp add: nth_append)
qed

text \<open>
  Claim C10: after \<^verbatim>\<open>update_dfa(tokens)\<close>, for every token list and whatever simulation was
  in progress, the cursor \<^verbatim>\<open>animation_step\<close> is 0 and the current state is the freshly
  created start state: an object that did not exist before the call, named START and not
  accepting.
\<close>

theorem update_dfa_resets_simulator:
  "animation_step (update_dfa type_order toks v) = 0 \<and>
   current_state (update_dfa type_order toks v) = Some (length (heap v)) \<and>
   start_state (update_dfa type_order toks v) = Some (length (heap v)) \<and>
   length (heap v) < length (heap (update_dfa type_order toks v)) \<and>
   name (heap (update_dfa type_order toks v) ! length (heap v)) = ''START'' \<and>
   \<not> is_accepting (heap (update_dfa type_order toks v) ! length (heap v))"
proof -
  let ?s = "length (heap v)"
  let ?h0 = "heap v @ [new_DFAState ''START'' False]"
  obtain h1 d1 where f: "foldl (add_token_state ?s) (?h0, [(''START'', ?s)]) type_order = (h1, d1)"
    by (cases "foldl (add_token_state ?s) (?h0, [(''START'', ?s)]) type_order") 
  have "?s < length ?h0" by simp
  from add_token_state_fold[OF this f]
  have "length ?h0 \<le> length h1" "name (h1 ! ?s) = ''START''" "\<not> is_accepting (h1 ! ?s)"
    by (simp_all add: new_DFAState_def)
  moreover have "update_dfa type_order toks v =
      reset_animation (v\<lparr>tokens := toks, heap := h1, states := d1, start_state := Some ?s\<rparr>)"
    using f by (simp add: update_dfa_def Let_def)
  ultimately show ?thesis by (simp add: reset_animation_def)
qed

section \<open>Removing a state\<close>

lemma filter_transitions_length: "length (filter_transitions sel h a) = length h"
  by (simp add: filter_transitions_def)


lemma delete_state_loop_length: "length (delete_state_loop sel h rs) = length h"
  unfolding delete_state_loop_def
  by (induction rs arbitrary: h) (simp_all add: filter_transitions_length)















section \<open>Grouping the states of a partition\<close>

lemma group_states_grouping:
  "group_states h alphabet partitions xs = grouping (transition_key h alphabet partitions) [] xs"
  by (simp add: group_states_def grouping_def)

lemma grouping_Nil [simp]: "grouping f acc [] = acc"
  by (simp add: grouping_def)

lemma grouping_Cons [simp]: "grouping f acc (x # xs) = grouping f (add_to_group (f x) x acc) xs"
  by (simp add: grouping_def)

lemma add_to_group_mset:
  "mset (concat (map snd (add_to_group k s gs))) = add_mset s (mset (concat (map snd gs)))"
  by (induction k s gs rule: add_to_group.induct) auto

lemma add_to_group_keys:
  "map fst (add_to_group k s gs) = (if k \<in> set (map fst gs) then map fst gs else map fst gs @ [k])"
  by (induction k s gs rule: add_to_group.induct) auto

lemma add_to_group_nonempty:
  "\<forall>(k, g) \<in> set gs. g \<noteq> [] \<Longrightarrow> \<forall>(k, g) \<in> set (add_to_group k' s gs). g \<noteq> []"
  by (induction k' s gs rule: add_to_group.induct) auto

lemma add_to_group_key_of:
  "\<forall>(k, g) \<in> set gs. \<forall>x \<in> set g. f x = k \<Longrightarrow>
   \<forall>(k, g) \<in> set (add_to_group (f s) s gs). \<forall>x \<in> set g. f x = k"
  by (induction "f s" s gs rule: add_to_group.induct) auto

lemma grouping_mset:
  "mset (concat (map snd (grouping f acc xs))) = mset (concat (map snd acc)) + mset xs"
  by (induction xs arbitrary: acc) (simp_all add: add_to_group_mset)

lemma grouping_nonempty:
  "\<forall>(k, g) \<in> set acc. g \<noteq> [] \<Longrightarrow> \<forall>(k, g) \<in> set (grouping f acc xs). g \<noteq> []"
proof (induction xs arbitrary: acc)
  case Nil
  then show ?case by simp
next
  case (Cons x xs)
  from Cons.IH[OF add_to_group_nonempty[OF Cons.prems]] show ?case by simp
qed

lemma grouping_key_of:
  "\<forall>(k, g) \<in> set acc. \<forall>x \<in> set g. f x = k \<Longrightarrow>
   \<forall>(k, g) \<in> set (grouping f acc xs). \<forall>x \<in> set g. f x = k"
proof (induction xs arbitrary: acc)
  case Nil
  then show ?case by simp
next
  case (Cons x xs)
  from Cons.IH[OF add_to_group_key_of[OF Cons.prems]] show ?case by simp
qed

lemma grouping_distinct:
  "distinct (map fst acc) \<Longrightarrow> distinct (map fst (grouping f acc xs))"
  by (induction xs arbitrary: acc) (simp_all add: add_to_group_keys)

lemma add_to_group_key_set:
  "set (map fst (add_to_group k s gs)) = insert k (set (map fst gs))"
  by (simp add: add_to_group_keys) auto

lemma grouping_key_set:
  "set (map fst (grouping f acc xs)) = set (map fst acc) \<union> f ` set xs"
proof (induction xs arbitrary: acc)
  case Nil
  then show ?case by simp
next
  case (Cons x xs)
  show ?case
    by (simp only: grouping_Cons Cons.IH add_to_group_key_set) auto
qed

lemma grouping_length_ge: "length acc \<le> length (grouping f acc xs)"
proof (induction xs arbitrary: acc)
  case Nil
  then show ?case by simp
next
  case (Cons x xs)
  have "length acc \<le> length (add_to_group (f x) x acc)"
    by (induction "f x" x acc rule: add_to_group.induct) auto
  with Cons[of "add_to_group (f x) x acc"] show ?case by simp
qed

lemma grouping_same_key:
  "\<forall>x \<in> set xs. f x = k \<Longrightarrow> grouping f ((k, g) # rest) xs = (k, g @ xs) # rest"
  by (induction xs arbitrary: g) simp_all

lemma grouping_length_card: "length (grouping f [] xs) = card (f ` set xs)"
proof -
  have "distinct (map fst (grouping f [] xs))"
    by (simp add: grouping_distinct)
  then have "length (map fst (grouping f [] xs)) = card (set (map fst (grouping f [] xs)))"
    by (simp only: distinct_card)
  then show ?thesis
    by (simp add: grouping_key_set del: set_map)
qed

lemma grouping_ne: "xs \<noteq> [] \<Longrightarrow> grouping f [] xs \<noteq> []"
  using grouping_length_ge[of "add_to_group (f (hd xs)) (hd xs) []" f "tl xs"]
  by (cases xs) auto

lemma grouping_single:
  assumes "length (grouping f [] xs) = 1"
  shows "grouping f [] xs = [(f (hd xs), xs)]"
proof (cases xs)
  case Nil
  with assms show ?thesis by simp
next
  case (Cons x xs')
  from assms have "card (f ` set xs) = 1" by (simp add: grouping_length_card)
  then obtain k where k: "f ` set xs = {k}" by (auto simp: card_1_singleton_iff)
  then have all: "\<forall>y \<in> set xs. f y = k" by auto
  with Cons have "f x = k" "\<forall>y \<in> set xs'. f y = k" by auto
  then show ?thesis using Cons grouping_same_key[of xs' f k "[x]" "[]"] by simp
qed

lemma grouping_sizes:
  "length (concat (map snd (grouping f [] xs))) = length xs"
proof -
  have "size (mset (concat (map snd (grouping f [] xs)))) = size (mset xs)"
    by (simp only: grouping_mset) simp
  then show ?thesis by simp
qed


section \<open>Refinement rounds\<close>

lemma weight_append [simp]: "weight (ps @ qs) = weight ps + weight qs"
  by (simp add: weight_def)

lemma weight_Cons [simp]: "weight (p # ps) = block_weight p + weight ps"
  by (simp add: weight_def)

lemma weight_Nil [simp]: "weight [] = 0"
  by (simp add: weight_def)

lemma groups_weight:
  "\<forall>(k, g) \<in> set gs. g \<noteq> [] \<Longrightarrow>
   weight (map (\<lambda>(k, g). PyList g) gs) + 2 * length gs = 2 * length (concat (map snd gs))"
proof (induction gs)
  case Nil
  then show ?case by simp
next
  case (Cons kg gs)
  obtain k g where kg: "kg = (k, g)" by (cases kg)
  with Cons.prems have "g \<noteq> []" by simp
  then have "2 * length g - 2 + 2 = 2 * length g" by (cases g) simp_all
  moreover from Cons have "weight (map (\<lambda>(k, g). PyList g) gs) + 2 * length gs
      = 2 * length (concat (map snd gs))" by simp
  ultimately show ?case using kg by simp
qed

lemma groups_count_le:
  "\<forall>(k, g) \<in> set gs. g \<noteq> [] \<Longrightarrow> length gs \<le> length (concat (map snd gs))"
proof (induction gs)
  case Nil
  then show ?case by simp
next
  case (Cons kg gs)
  obtain k g where kg: "kg = (k, g)" by (cases kg)
  with Cons.prems have "1 \<le> length g" by (cases g) simp_all
  moreover from Cons have "length gs \<le> length (concat (map snd gs))" by simp
  ultimately show ?case using kg by simp
qed

lemma group_states_nonempty:
  "\<forall>(k, g) \<in> set (group_states h alphabet partitions xs). g \<noteq> []"
  unfolding group_states_grouping by (rule grouping_nonempty) simp

lemma group_states_length: 
  "length (concat (map snd (group_states h alphabet partitions xs))) = length xs"
  unfolding group_states_grouping by (rule grouping_sizes)

lemma group_states_ne: "xs \<noteq> [] \<Longrightarrow> group_states h alphabet partitions xs \<noteq> []"
  unfolding group_states_grouping by (rule grouping_ne)

lemma refine_block_empty: "members p = [] \<Longrightarrow> refine_block h alphabet partitions p = [p]"
  by (simp add: refine_block_def)

lemma refine_block_length: "1 \<le> length (refine_block h alphabet partitions p)"
proof (cases "members p = []")
  case True
  then show ?thesis by (simp add: refine_block_def)
next
  case False
  from group_states_ne[OF this] show ?thesis
    by (cases "group_states h alphabet partitions (members p)") (simp_all add: refine_block_def False)
qed

lemma refine_block_members:
  "mset (all_members (refine_block h alphabet partitions p)) = mset (members p)"
proof (cases "members p = []")
  case True
  then show ?thesis by (simp add: refine_block_def all_members_def)
next
  case False
  have "(members \<circ> (\<lambda>(k, g). PyList g)) = (snd :: int list \<times> ref list \<Rightarrow> ref list)"
    by (auto simp: fun_eq_iff)
  then show ?thesis
    using grouping_mset[of "transition_key h alphabet partitions" "[]" "members p"] False
    by (simp add: refine_block_def all_members_def group_states_grouping)
qed

lemma refine_block_empty_blocks:
  "empty_blocks (refine_block h alphabet partitions p) = (if members p = [] then [p] else [])"
proof (cases "members p = []")
  case True
  then show ?thesis by (simp add: refine_block_def empty_blocks_def)
next
  case False
  have "filter (\<lambda>p. members p = []) (map (\<lambda>(k, g). PyList g) gs) = []"
    if "\<forall>(k, g) \<in> set gs. g \<noteq> []" for gs :: "(int list \<times> ref list) list"
    using that by (induction gs) auto
  from this[OF group_states_nonempty] False show ?thesis
    by (simp add: refine_block_def empty_blocks_def)
qed

lemma refine_block_single:
  assumes "length (refine_block h alphabet partitions (PyList xs)) = 1"
  shows "refine_block h alphabet partitions (PyList xs) = [PyList xs]"
proof (cases "xs = []")
  case True
  then show ?thesis by (simp add: refine_block_def)
next
  case False
  with assms have "length (grouping (transition_key h alphabet partitions) [] xs) = 1"
    by (simp add: refine_block_def group_states_grouping)
  from grouping_single[OF this] False show ?thesis
    by (simp add: refine_block_def group_states_grouping)
qed

lemma refine_block_weight:
  "weight (refine_block h alphabet partitions p) \<le> block_weight p \<and>
   (refine_block h alphabet partitions p \<noteq> [p] \<longrightarrow>
      weight (refine_block h alphabet partitions p) < block_weight p)"
proof (cases "members p = []")
  case True
  then show ?thesis by (simp add: refine_block_def)
next
  case False
  let ?gs = "group_states h alphabet partitions (members p)"
  let ?n = "length (members p)"
  have rb: "refine_block h alphabet partitions p = map (\<lambda>(k, g). PyList g) ?gs"
    using False by (simp add: refine_block_def)
  have w: "weight (map (\<lambda>(k, g). PyList g) ?gs) + 2 * length ?gs = 2 * ?n"
    using groups_weight[OF group_states_nonempty, of h alphabet partitions "members p"]
    by (simp add: group_states_length)
  have le: "length ?gs \<le> ?n"
    using groups_count_le[OF group_states_nonempty, of h alphabet partitions "members p"]
    by (simp add: group_states_length)
  have ge: "1 \<le> length ?gs"
    using group_states_ne[OF False, of h alphabet partitions] by (cases ?gs) simp_all
  show ?thesis
  proof (cases p)
    case (PySet xs)
    with w le ge rb show ?thesis by simp linarith
  next
    case (PyList xs)
    have "length ?gs = 1 \<Longrightarrow> refine_block h alphabet partitions p = [p]"
      using refine_block_single[of h alphabet partitions xs] PyList rb by simp
    then have "refine_block h alphabet partitions p \<noteq> [p] \<Longrightarrow> 2 \<le> length ?gs"
      using ge by linarith
    with PyList w le ge rb show ?thesis by simp linarith
  qed
qed

lemma block_eq_refl: "block_eq p p"
  by (cases p) simp_all

lemma partitions_eq_refl: "partitions_eq ps ps"
  unfolding partitions_eq_def by (induction ps) (simp_all add: block_eq_refl)

lemma blocks_length:
  "length ps \<le> length (concat (map (refine_block h alphabet partitions) ps))"
proof (induction ps)
  case Nil
  then show ?case by simp
next
  case (Cons p ps)
  with refine_block_length[of h alphabet partitions p] show ?case by simp
qed

lemma blocks_weight_le:
  "weight (concat (map (refine_block h alphabet partitions) ps)) \<le> weight ps"
proof (induction ps)
  case Nil
  then show ?case by simp
next
  case (Cons p ps)
  with refine_block_weight[of h alphabet partitions p] show ?case by simp
qed

lemma blocks_weight_less:
  "concat (map (refine_block h alphabet partitions) ps) \<noteq> ps \<Longrightarrow>
   weight (concat (map (refine_block h alphabet partitions) ps)) < weight ps"
proof (induction ps)
  case Nil
  then show ?case by simp
next
  case (Cons p ps)
  show ?case
  proof (cases "refine_block h alphabet partitions p = [p]")
    case True
    with Cons.prems have "concat (map (refine_block h alphabet partitions) ps) \<noteq> ps" by simp
    from Cons.IH[OF this] True show ?thesis by simp
  next
    case False
    with refine_block_weight[of h alphabet partitions p]
    have "weight (refine_block h alphabet partitions p) < block_weight p" by simp
    with blocks_weight_le[of h alphabet partitions ps] show ?thesis by simp
  qed
qed

lemma blocks_members:
  "mset (all_members (concat (map (refine_block h alphabet partitions) ps))) = mset (all_members ps)"
proof (induction ps)
  case Nil
  then show ?case by simp
next
  case (Cons p ps)
  have "all_members (xs @ ys) = all_members xs @ all_members ys" for xs ys
    by (simp add: all_members_def)
  moreover have "all_members (p # ps) = members p @ all_members ps"
    by (simp add: all_members_def)
  ultimately show ?case
    using Cons refine_block_members[of h alphabet partitions p] by simp
qed

lemma blocks_empty:
  "empty_blocks (concat (map (refine_block h alphabet partitions) ps)) = empty_blocks ps"
proof (induction ps)
  case Nil
  then show ?case by simp
next
  case (Cons p ps)
  have "empty_blocks (xs @ ys) = empty_blocks xs @ empty_blocks ys" for xs ys
    by (simp add: empty_blocks_def)
  moreover have "empty_blocks (p # ps) = (if members p = [] then [p] else []) @ empty_blocks ps"
    by (simp add: empty_blocks_def)
  ultimately show ?case
    using Cons refine_block_empty_blocks[of h alphabet partitions p] by simp
qed

lemma refine_block_eq:
  assumes "refine_block h alphabet partitions p = [b]" and "block_eq b p"
  shows "b = p"
proof (cases "members p = []")
  case True
  with assms show ?thesis by (simp add: refine_block_def)
next
  case False
  with assms(1) obtain k g where "b = PyList g"
    by (auto simp: refine_block_def map_eq_Cons_conv)
  with assms(2) obtain xs where p: "p = PyList xs" by (cases p) simp_all
  from assms(1) have "length (refine_block h alphabet partitions (PyList xs)) = 1"
    by (simp add: p)
  from refine_block_single[OF this] assms(1) p show ?thesis by simp
qed

lemma blocks_eq:
  "list_all2 block_eq (concat (map (refine_block h alphabet partitions) ps)) ps \<Longrightarrow>
   concat (map (refine_block h alphabet partitions) ps) = ps"
proof (induction ps)
  case Nil
  then show ?case by simp
next
  case (Cons p ps)
  let ?f = "refine_block h alphabet partitions"
  from Cons.prems have "length (?f p) + length (concat (map ?f ps)) = Suc (length ps)"
    by (auto dest: list_all2_lengthD)
  with refine_block_length[of h alphabet partitions p] blocks_length[of ps h alphabet partitions]
  have "length (?f p) = 1" by linarith
  then obtain b where b: "?f p = [b]"
    by (cases "?f p") auto
  with Cons.prems have "block_eq b p" and rest: "list_all2 block_eq (concat (map ?f ps)) ps"
    by simp_all
  from refine_block_eq[OF b this(1)] Cons.IH[OF rest] b show ?case by simp
qed

lemma refine_round_eq:
  "partitions_eq (refine_round h alphabet ps) ps \<Longrightarrow> refine_round h alphabet ps = ps"
  unfolding partitions_eq_def refine_round_def by (rule blocks_eq)

lemma refine_round_weight:
  "refine_round h alphabet ps \<noteq> ps \<Longrightarrow> weight (refine_round h alphabet ps) < weight ps"
  unfolding refine_round_def by (rule blocks_weight_less)

lemma refine_round_length: "length ps \<le> length (refine_round h alphabet ps)"
  unfolding refine_round_def by (rule blocks_length)

lemma refine_round_members:
  "mset (all_members (refine_round h alphabet ps)) = mset (all_members ps)"
  unfolding refine_round_def by (rule blocks_members)

lemma refine_round_empty_blocks:
  "empty_blocks (refine_round h alphabet ps) = empty_blocks ps"
  unfolding refine_round_def by (rule blocks_empty)

lemma refine_loop_terminates:
  "\<exists>n. refine_loop h alphabet ps (refine_round h alphabet ps)
          = Some ((refine_round h alphabet ^^ n) ps) \<and>
        refine_round h alphabet ((refine_round h alphabet ^^ n) ps)
          = (refine_round h alphabet ^^ n) ps"
proof (induction "weight ps" arbitrary: ps rule: less_induct)
  case less
  let ?r = "refine_round h alphabet ps"
  show ?case
  proof (cases "partitions_eq ?r ps")
    case True
    then have fp: "?r = ps" by (rule refine_round_eq)
    have "refine_loop h alphabet ps ?r = Some ?r"
      using True by (subst refine_loop.simps) simp
    with fp have "refine_loop h alphabet ps ?r = Some ((refine_round h alphabet ^^ 0) ps) \<and>
        refine_round h alphabet ((refine_round h alphabet ^^ 0) ps)
          = (refine_round h alphabet ^^ 0) ps"
      by simp
    then show ?thesis by blast
  next
    case False
    then have ne: "?r \<noteq> ps" using partitions_eq_refl by metis
    then have w: "weight ?r < weight ps" by (rule refine_round_weight)
    have "?r \<noteq> []"
      using ne refine_round_length[of ps h alphabet] by auto
    then have unfold: "refine_loop h alphabet ps ?r
        = refine_loop h alphabet ?r (refine_round h alphabet ?r)"
      using False by (subst refine_loop.simps) (simp add: Let_def)
    from less[OF w] obtain n where
      n: "refine_loop h alphabet ?r (refine_round h alphabet ?r)
            = Some ((refine_round h alphabet ^^ n) ?r)"
         "refine_round h alphabet ((refine_round h alphabet ^^ n) ?r)
            = (refine_round h alphabet ^^ n) ?r"
      by blast
    have "(refine_round h alphabet ^^ n) ?r = (refine_round h alphabet ^^ Suc n) ps"
      by (simp only: funpow_Suc_right o_apply)
    with n unfold show ?thesis by metis
  qed
qed

lemma refine_loop_start:
  "ps \<noteq> [] \<Longrightarrow>
   refine_loop h alphabet ps [] = refine_loop h alphabet ps (refine_round h alphabet ps)"
  by (subst refine_loop.simps) (simp add: partitions_eq_def)

lemma blocks_count:
  "length ps \<le> length (all_members ps) + length (empty_blocks ps)"
proof (induction ps)
  case Nil
  then show ?case by (simp add: all_members_def empty_blocks_def)
next
  case (Cons p ps)
  from Cons show ?case
    by (cases "members p") (simp_all add: all_members_def empty_blocks_def)
qed

lemma rounds_members:
  "mset (all_members ((refine_round h alphabet ^^ k) ps)) = mset (all_members ps)"
  by (induction k) (simp_all add: refine_round_members)

lemma rounds_empty_blocks:
  "empty_blocks ((refine_round h alphabet ^^ k) ps) = empty_blocks ps"
  by (induction k) (simp_all add: refine_round_empty_blocks)

lemma refine_loop_initial:
  "\<exists>n. refine_loop h alphabet (initial_partitions na acc) []
          = Some ((refine_round h alphabet ^^ n) (initial_partitions na acc)) \<and>
        refine_round h alphabet ((refine_round h alphabet ^^ n) (initial_partitions na acc))
          = (refine_round h alphabet ^^ n) (initial_partitions na acc)"
proof -
  have "initial_partitions na acc \<noteq> []" by (simp add: initial_partitions_def)
  from refine_loop_start[OF this] refine_loop_terminates[of h alphabet "initial_partitions na acc"]
  show ?thesis by simp
qed

lemma blocks_split: "length ps = length (nonempty ps) + length (empty_blocks ps)"
  unfolding nonempty_def empty_blocks_def
  using sum_length_filter_compl[of "\<lambda>p. members p = []" ps] by simp

lemma refine_round_nonempty:
  "length (nonempty ps) \<le> length (nonempty (refine_round h alphabet ps))"
  using refine_round_length[of ps h alphabet] blocks_split[of ps]
    blocks_split[of "refine_round h alphabet ps"]
  by (simp add: refine_round_empty_blocks)

lemma nonempty_count: "length (nonempty ps) \<le> length (all_members ps)"
  using blocks_count[of ps] blocks_split[of ps] by simp

lemma rounds_nonempty_count:
  "length (nonempty ((refine_round h alphabet ^^ k) ps)) \<le> length (all_members ps)"
proof -
  have "length (all_members ((refine_round h alphabet ^^ k) ps)) = length (all_members ps)"
    using rounds_members[where h = h and alphabet = alphabet and k = k and ps = ps]
    by (metis size_mset)
  with nonempty_count[of "(refine_round h alphabet ^^ k) ps"] show ?thesis by simp
qed

lemma set_orders_count:
  assumes "set_orders v na acc"
  shows "length na + length acc \<le> length (states v)"
proof -
  let ?xs = "dict_values (states v)"
  let ?P = "\<lambda>r. is_accepting (heap v ! r)"
  from assms have d: "distinct na" "distinct acc"
    and na: "set na = set (filter (\<lambda>r. \<not> ?P r) ?xs)"
    and acc: "set acc = set (filter ?P ?xs)"
    by (simp_all add: set_orders_def)
  have "length na = card (set na)" using d(1) by (simp add: distinct_card)
  also have "\<dots> \<le> length (filter (\<lambda>r. \<not> ?P r) ?xs)" unfolding na by (rule card_length)
  finally have 1: "length na \<le> length (filter (\<lambda>r. \<not> ?P r) ?xs)" .
  have "length acc = card (set acc)" using d(2) by (simp add: distinct_card)
  also have "\<dots> \<le> length (filter ?P ?xs)" unfolding acc by (rule card_length)
  finally have 2: "length acc \<le> length (filter ?P ?xs)" .
  have "length (filter ?P ?xs) + length (filter (\<lambda>r. \<not> ?P r) ?xs) = length ?xs"
    by (rule sum_length_filter_compl)
  with 1 2 show ?thesis by (simp add: dict_values_def)
qed

text \<open>
  Claim C9: the refinement loop terminates. For every object store, alphabet and initial
  pair of sets the loop returns, and what it returns is the partition list after some
  number of refinement rounds, a list that one more round leaves unchanged. The number of
  blocks, a block being a non-empty set of states, never decreases from one round to the
  next; when the two initial sets are those built from the states of the automaton,
  whatever the order in which Python iterates them, it is at most the number of original
  states at every round. (The empty sets that the partition list may hold besides the
  blocks are the subject of claim C8.)
\<close>

theorem refine_loop_reaches_fixed_point:
  "(\<exists>n. refine_loop (heap v) alphabet (initial_partitions na acc) []
           = Some ((refine_round (heap v) alphabet ^^ n) (initial_partitions na acc)) \<and>
        refine_round (heap v) alphabet
            ((refine_round (heap v) alphabet ^^ n) (initial_partitions na acc))
          = (refine_round (heap v) alphabet ^^ n) (initial_partitions na acc)) \<and>
   (\<forall>k. length (nonempty ((refine_round (heap v) alphabet ^^ k) (initial_partitions na acc)))
           \<le> length (nonempty
                 ((refine_round (heap v) alphabet ^^ Suc k) (initial_partitions na acc)))) \<and>
   (set_orders v na acc \<longrightarrow>
      (\<forall>k. length (nonempty ((refine_round (heap v) alphabet ^^ k) (initial_partitions na acc)))
              \<le> length (states v)))"
proof -
  let ?P = "initial_partitions na acc"
  let ?R = "refine_round (heap v) alphabet"
  have mono: "length (nonempty ((?R ^^ k) ?P)) \<le> length (nonempty ((?R ^^ Suc k) ?P))" for k
    by (simp add: refine_round_nonempty)
  have bound: "length (nonempty ((?R ^^ k) ?P)) \<le> length (states v)"
    if so: "set_orders v na acc" for k
  proof -
    have "length (all_members ?P) = length na + length acc"
      by (simp add: all_members_def initial_partitions_def)
    with set_orders_count[OF so] have "length (all_members ?P) \<le> length (states v)"
      by simp
    with rounds_nonempty_count[where h = "heap v" and alphabet = alphabet and ps = ?P and k = k]
    show ?thesis by simp
  qed
  from mono bound refine_loop_initial[of "heap v" alphabet na acc]
  show ?thesis by blast
qed

theorem refine_loop_reaches_fixed_point_witness:
  "set_orders scenario_A [0] [1, 2] \<and>
   (\<exists>n. refine_loop (heap scenario_A) [''a'', ''b''] (initial_partitions [0] [1, 2]) []
           = Some ((refine_round (heap scenario_A) [''a'', ''b''] ^^ n)
                     (initial_partitions [0] [1, 2]))) \<and>
   length (nonempty (initial_partitions [0] [1, 2]))
     \<le> length (nonempty ((refine_round (heap scenario_A) [''a'', ''b''] ^^ Suc 0)
                            (initial_partitions [0] [1, 2]))) \<and>
   length (nonempty ((refine_round (heap scenario_A) [''a'', ''b''] ^^ Suc 0)
                       (initial_partitions [0] [1, 2]))) \<le> 3"
proof -
  let ?P = "initial_partitions [0] [1, 2]"
  let ?R = "refine_round (heap scenario_A) [''a'', ''b'']"
  have so: "set_orders scenario_A [0] [1, 2]"
    by (simp add: set_orders_def scenario_A_def dict_values_def new_DFAState_def)
  have len: "length (states scenario_A) = 3" by (simp add: scenario_A_def)
  note inst = refine_loop_reaches_fixed_point[of scenario_A "[''a'', ''b'']" "[0]" "[1, 2]"]
  from inst have e: "\<exists>n. refine_loop (heap scenario_A) [''a'', ''b''] ?P [] = Some ((?R ^^ n) ?P)"
    by blast
  from inst have m: "length (nonempty ((?R ^^ 0) ?P)) \<le> length (nonempty ((?R ^^ Suc 0) ?P))"
    by blast
  from inst so have "length (nonempty ((?R ^^ Suc 0) ?P)) \<le> length (states scenario_A)"
    by blast
  with len have b: "length (nonempty ((?R ^^ Suc 0) ?P)) \<le> 3" by simp
  from m have m': "length (nonempty ?P) \<le> length (nonempty ((?R ^^ Suc 0) ?P))"
    by (simp only: funpow_0)
  from so e m' b show ?thesis by blast
qed

text \<open>
  Claim C8, as stated: an empty block is omitted, initially and after every round. For the
  initial automaton the set of accepting states is empty and is the second block of the
  initial list, and still the second block after a refinement round.
\<close>

theorem empty_block_counterexample:
  "set_orders init_visualizer [0] [] \<and>
   initial_partitions [0] [] ! 1 = PySet [] \<and>
   refine_round (heap init_visualizer)
       (sorted_alphabet (heap init_visualizer) (states init_visualizer))
       (initial_partitions [0] []) ! 1 = PySet [] \<and>
   members (PySet []) = []"
  by code_simp

text \<open>
  Claim C8, amended: the initial partition list always holds both blocks, the non-accepting
  states and then the accepting states, empty or not; a refinement round puts an empty
  block back unchanged and produces no other empty block, so that the empty blocks after
  any number of rounds, and in the list the loop returns, are those of the initial list.
\<close>

theorem empty_blocks_are_kept:
  "initial_partitions na acc = [PySet na, PySet acc] \<and>
   refine_block h alphabet ps (PySet []) = [PySet []] \<and>
   refine_block h alphabet ps (PyList []) = [PyList []] \<and>
   empty_blocks ((refine_round h alphabet ^^ n) ps) = empty_blocks ps \<and>
   (\<exists>r. refine_loop h alphabet (initial_partitions na acc) [] = Some r \<and>
        empty_blocks r = empty_blocks (initial_partitions na acc))"
proof -
  from refine_loop_initial[of h alphabet na acc] obtain m where
    "refine_loop h alphabet (initial_partitions na acc) []
       = Some ((refine_round h alphabet ^^ m) (initial_partitions na acc))"
    by blast
  then have "\<exists>r. refine_loop h alphabet (initial_partitions na acc) [] = Some r \<and>
        empty_blocks r = empty_blocks (initial_partitions na acc)"
    by (simp add: rounds_empty_blocks)
  then show ?thesis
    by (simp add: initial_partitions_def refine_block_def rounds_empty_blocks)
qed

section \<open>Building the minimized automaton\<close>

lemma refine_block_subset:
  assumes "q \<in> set (refine_block h alphabet partitions p)"
  shows "set (members q) \<subseteq> set (members p)"
proof -
  from assms have "set (members q) \<subseteq> set (all_members (refine_block h alphabet partitions p))"
    by (auto simp: all_members_def)
  also have "\<dots> = set (members p)"
    using refine_block_members[of h alphabet partitions p] by (metis set_mset_mset)
  finally show ?thesis .
qed

lemma refine_round_subset:
  assumes "q \<in> set (refine_round h alphabet ps)"
  shows "\<exists>p \<in> set ps. set (members q) \<subseteq> set (members p)"
proof -
  from assms obtain p where "p \<in> set ps" "q \<in> set (refine_block h alphabet ps p)"
    by (auto simp: refine_round_def)
  with refine_block_subset[of q h alphabet ps p] show ?thesis by blast
qed

lemma refine_round_homogeneous:
  assumes "homogeneous h ps"
  shows "homogeneous h (refine_round h' alphabet ps)"
  unfolding homogeneous_def
proof (intro ballI)
  fix q x y
  assume q: "q \<in> set (refine_round h' alphabet ps)"
    and x: "x \<in> set (members q)" and y: "y \<in> set (members q)"
  from refine_round_subset[OF q] obtain p where
    p: "p \<in> set ps" and sub: "set (members q) \<subseteq> set (members p)" by blast
  from x y sub have "x \<in> set (members p)" "y \<in> set (members p)" by auto
  with assms p show "is_accepting (h ! x) = is_accepting (h ! y)"
    unfolding homogeneous_def by blast
qed

lemma rounds_homogeneous:
  "homogeneous h ps \<Longrightarrow> homogeneous h ((refine_round h' alphabet ^^ k) ps)"
proof (induction k)
  case 0
  then show ?case by simp
next
  case (Suc k)
  have "homogeneous h (refine_round h' alphabet ((refine_round h' alphabet ^^ k) ps))"
    by (rule refine_round_homogeneous) (rule Suc.IH[OF Suc.prems])
  then show ?case by simp
qed

lemma blocks_fixed:
  "concat (map (refine_block h alphabet partitions) ps) = ps \<Longrightarrow>
   \<forall>p \<in> set ps. refine_block h alphabet partitions p = [p]"
proof (induction ps)
  case Nil
  then show ?case by simp
next
  case (Cons p ps)
  let ?f = "refine_block h alphabet partitions"
  from Cons.prems have "length (?f p @ concat (map ?f ps)) = length (p # ps)"
    by simp
  then have "length (?f p) + length (concat (map ?f ps)) = Suc (length ps)"
    by simp
  with refine_block_length[of h alphabet partitions p] blocks_length[of ps h alphabet partitions]
  have "length (?f p) = 1" by linarith
  then obtain b where b: "?f p = [b]"
    by (cases "?f p") auto
  with Cons.prems have "b = p" "concat (map ?f ps) = ps" by simp_all
  with Cons.IH b show ?case by simp
qed

lemma refine_block_fixed_keys:
  assumes "refine_block h alphabet partitions p = [p]"
    and "x \<in> set (members p)" and "y \<in> set (members p)"
  shows "transition_key h alphabet partitions x = transition_key h alphabet partitions y"
proof -
  let ?f = "transition_key h alphabet partitions"
  let ?gs = "grouping ?f [] (members p)"
  from assms(2) have ne: "members p \<noteq> []" by auto
  with assms(1) have "map (\<lambda>(k, g). PyList g) ?gs = [p]"
    by (simp add: refine_block_def group_states_grouping)
  then have "length (map (\<lambda>(k, g). PyList g) ?gs) = length [p]"
    by (rule arg_cong)
  then have "length ?gs = 1"
    by simp
  then have "card (?f ` set (members p)) = 1"
    by (simp add: grouping_length_card)
  then obtain k where k: "?f ` set (members p) = {k}"
    by (auto simp: card_1_singleton_iff)
  from assms(2) have "?f x \<in> ?f ` set (members p)" by (rule imageI)
  then have x: "?f x = k" unfolding k by simp
  from assms(3) have "?f y \<in> ?f ` set (members p)" by (rule imageI)
  then have "?f y = k" unfolding k by simp
  with x show ?thesis by simp
qed

lemma fixed_point_stable:
  assumes "refine_round h alphabet ps = ps"
  shows "stable h alphabet ps"
  unfolding stable_def
proof (intro ballI)
  fix p x y
  assume p: "p \<in> set ps" and xy: "x \<in> set (members p)" "y \<in> set (members p)"
  from blocks_fixed[OF assms[unfolded refine_round_def]] p
  have "refine_block h alphabet ps p = [p]" by blast
  from refine_block_fixed_keys[OF this xy]
  show "transition_key h alphabet ps x = transition_key h alphabet ps y" .
qed

lemma nonempty_simps [simp]:
  "nonempty [] = []"
  "nonempty (p # ps) = (if members p = [] then nonempty ps else p # nonempty ps)"
  "nonempty (ps @ qs) = nonempty ps @ nonempty qs"
  by (simp_all add: nonempty_def)

lemma valid_simps [simp]:
  "live_blocks h []"
  "live_blocks h (p # ps) \<longleftrightarrow> (\<forall>s \<in> set (members p). s < length h) \<and> live_blocks h ps"
  "live_blocks h (ps @ qs) \<longleftrightarrow> live_blocks h ps \<and> live_blocks h qs"
  by (auto simp: live_blocks_def)

lemma created_Nil:
  "created h [] =
     \<lparr>m_heap = h, minimized_states = [], partition_to_state = [], original_to_minimized = []\<rparr>"
  by (simp add: created_def)

lemma created_snoc: "created h (ps @ [p]) = create_state (created h ps) (length ps, p)"
  by (simp add: created_def enumerate_append_eq)

lemma mk_append:
  assumes "\<forall>s \<in> set (members p). s < length h"
  shows "new_DFAState (new_state_name (h @ xs) p)
           (list_ex (\<lambda>s. is_accepting ((h @ xs) ! s)) (members p)) = new_state_for h p"
proof -
  have n: "map (\<lambda>s. name ((h @ xs) ! s)) (members p) = map (\<lambda>s. name (h ! s)) (members p)"
    using assms by (simp add: nth_append)
  have a: "list_ex (\<lambda>s. is_accepting ((h @ xs) ! s)) (members p)
      = list_ex (\<lambda>s. is_accepting (h ! s)) (members p)"
    using assms by (auto simp: list_ex_iff nth_append)
  show ?thesis unfolding new_state_for_def new_state_name_def n a by (rule refl)
qed

lemma created_heap:
  "live_blocks h ps \<Longrightarrow> m_heap (created h ps) = h @ map (new_state_for h) (nonempty ps)"
proof (induction ps rule: rev_induct)
  case Nil
  then show ?case by (simp add: created_Nil)
next
  case (snoc p ps)
  then have IH: "m_heap (created h ps) = h @ map (new_state_for h) (nonempty ps)"
    and p: "\<forall>s \<in> set (members p). s < length h" by simp_all
  show ?case
  proof (cases "members p = []")
    case True
    then show ?thesis by (simp add: created_snoc create_state_def IH)
  next
    case False
    then show ?thesis
      by (simp add: created_snoc create_state_def IH Let_def mk_append[OF p])
  qed
qed

lemma created_heap_length:
  "live_blocks h ps \<Longrightarrow> length (m_heap (created h ps)) = length h + length (nonempty ps)"
  by (simp add: created_heap)

lemma map_of_foldl_update:
  "map_of (foldl (\<lambda>o2m s. AList.update s r o2m) d xs) q
     = (if q \<in> set xs then Some r else map_of d q)"
  by (induction xs arbitrary: d) (simp_all add: update_conv')

lemma created_o2m_snoc:
  assumes "live_blocks h ps"
  shows "map_of (original_to_minimized (created h (ps @ [p]))) q
     = (if q \<in> set (members p) then Some (length h + length (nonempty ps))
        else map_of (original_to_minimized (created h ps)) q)"
proof (cases "members p = []")
  case True
  then show ?thesis by (simp add: created_snoc create_state_def)
next
  case False
  then show ?thesis
    by (simp add: created_snoc create_state_def Let_def map_of_foldl_update
        created_heap_length[OF assms])
qed

lemma created_p2s_snoc:
  assumes "live_blocks h ps"
  shows "map_of (partition_to_state (created h (ps @ [p]))) i
     = (if i = length ps \<and> members p \<noteq> [] then Some (length h + length (nonempty ps))
        else map_of (partition_to_state (created h ps)) i)"
proof (cases "members p = []")
  case True
  then show ?thesis by (simp add: created_snoc create_state_def)
next
  case False
  then show ?thesis
    by (simp add: created_snoc create_state_def Let_def update_conv'
        created_heap_length[OF assms])
qed

lemma created_ms_snoc:
  assumes "live_blocks h (ps @ [p])"
  shows "minimized_states (created h (ps @ [p]))
     = (if members p = [] then minimized_states (created h ps)
        else AList.update (new_state_name h p) (length h + length (nonempty ps))
               (minimized_states (created h ps)))"
proof (cases "members p = []")
  case True
  then show ?thesis by (simp add: created_snoc create_state_def)
next
  case False
  from assms have v: "live_blocks h ps" and p: "\<forall>s \<in> set (members p). s < length h" by simp_all
  have "new_state_name (h @ map (new_state_for h) (nonempty ps)) p = new_state_name h p"
    using mk_append[OF p, of "map (new_state_for h) (nonempty ps)"]
    by (simp add: new_state_for_def new_DFAState_def)
  with False show ?thesis
    by (simp add: created_snoc create_state_def Let_def created_heap[OF v])
qed

lemma nonempty_index:
  assumes "i < length ps" and "members (ps ! i) \<noteq> []"
  shows "length (nonempty (take i ps)) < length (nonempty ps) \<and>
         nonempty ps ! length (nonempty (take i ps)) = ps ! i"
proof -
  have "ps = take i ps @ ps ! i # drop (Suc i) ps"
    using assms(1) by (rule id_take_nth_drop)
  then have "nonempty ps = nonempty (take i ps @ ps ! i # drop (Suc i) ps)"
    by (rule arg_cong)
  also have "\<dots> = nonempty (take i ps) @ ps ! i # nonempty (drop (Suc i) ps)"
    using assms(2) by simp
  finally have eq0: "nonempty ps = nonempty (take i ps) @ ps ! i # nonempty (drop (Suc i) ps)" .
  define A where "A = nonempty (take i ps)"
  define B where "B = nonempty (drop (Suc i) ps)"
  have eq: "nonempty ps = A @ ps ! i # B"
    unfolding A_def B_def by (rule eq0)
  show ?thesis
    unfolding A_def[symmetric] eq by simp
qed

lemma nonempty_set: "p \<in> set (nonempty ps) \<longleftrightarrow> p \<in> set ps \<and> members p \<noteq> []"
  by (simp add: nonempty_def)

lemma nonempty_nth:
  "j < length (nonempty ps) \<Longrightarrow> nonempty ps ! j \<in> set ps \<and> members (nonempty ps ! j) \<noteq> []"
  using nonempty_set[of "nonempty ps ! j" ps] by simp

lemma all_members_simps [simp]:
  "all_members [] = []"
  "all_members (p # ps) = members p @ all_members ps"
  "all_members (ps @ qs) = all_members ps @ all_members qs"
  by (simp_all add: all_members_def)

lemma in_all_members: "q \<in> set (all_members ps) \<longleftrightarrow> (\<exists>p \<in> set ps. q \<in> set (members p))"
  by (auto simp: all_members_def)

lemma in_all_members_nonempty:
  assumes "q \<in> set (all_members ps)"
  shows "\<exists>j < length (nonempty ps). q \<in> set (members (nonempty ps ! j))"
proof -
  from assms obtain p where p: "p \<in> set ps" "q \<in> set (members p)"
    by (auto simp: in_all_members)
  then have "members p \<noteq> []" by auto
  with p have "p \<in> set (nonempty ps)" by (simp add: nonempty_set)
  then obtain j where "j < length (nonempty ps)" "nonempty ps ! j = p"
    by (auto simp: in_set_conv_nth)
  with p(2) show ?thesis by blast
qed

lemma created_o2m:
  assumes "live_blocks h ps" and "distinct (all_members ps)"
    and "j < length (nonempty ps)" and "q \<in> set (members (nonempty ps ! j))"
  shows "map_of (original_to_minimized (created h ps)) q = Some (length h + j)"
  using assms
proof (induction ps arbitrary: j rule: rev_induct)
  case Nil
  then show ?case by simp
next
  case (snoc p ps)
  from snoc.prems(1) have v: "live_blocks h ps" by simp
  from snoc.prems(2) have d: "distinct (all_members ps)"
    and disj: "set (all_members ps) \<inter> set (members p) = {}" by auto
  show ?case
  proof (cases "j < length (nonempty ps)")
    case True
    with snoc.prems(4) have q: "q \<in> set (members (nonempty ps ! j))"
      by (simp add: nth_append)
    from nonempty_nth[OF True] q have "q \<in> set (all_members ps)"
      by (auto simp: in_all_members)
    with disj have "q \<notin> set (members p)" by auto
    with snoc.IH[OF v d True q] show ?thesis
      by (simp add: created_o2m_snoc[OF v])
  next
    case False
    with snoc.prems(3) have ne: "members p \<noteq> []" and j: "j = length (nonempty ps)"
      by (auto split: if_splits)
    with snoc.prems(4) have "q \<in> set (members p)" by simp
    with j show ?thesis by (simp add: created_o2m_snoc[OF v])
  qed
qed

lemma created_p2s:
  assumes "live_blocks h ps" and "i < length ps" and "members (ps ! i) \<noteq> []"
  shows "map_of (partition_to_state (created h ps)) i
           = Some (length h + length (nonempty (take i ps)))"
  using assms
proof (induction ps rule: rev_induct)
  case Nil
  then show ?case by simp
next
  case (snoc p ps)
  from snoc.prems(1) have v: "live_blocks h ps" by simp
  show ?case
  proof (cases "i = length ps")
    case True
    with snoc.prems(3) show ?thesis by (simp add: created_p2s_snoc[OF v])
  next
    case False
    with snoc.prems(2) have i: "i < length ps" by simp
    with snoc.prems(3) have "members (ps ! i) \<noteq> []" by (simp add: nth_append)
    from snoc.IH[OF v i this] i False show ?thesis
      by (simp add: created_p2s_snoc[OF v])
  qed
qed

lemma set_update_cases:
  "(k', r') \<in> set (AList.update k v al) \<Longrightarrow> (k', r') = (k, v) \<or> (k', r') \<in> set al"
  by (induction al) (auto split: if_splits)

lemma created_ms:
  assumes "live_blocks h ps"
  shows "distinct (map fst (minimized_states (created h ps))) \<and>
         (\<forall>(k, r) \<in> set (minimized_states (created h ps)).
            \<exists>j < length (nonempty ps). r = length h + j \<and> k = new_state_name h (nonempty ps ! j))"
  using assms
proof (induction ps rule: rev_induct)
  case Nil
  then show ?case by (simp add: created_Nil)
next
  case (snoc p ps)
  from snoc.prems have v: "live_blocks h ps" by simp
  note IH = snoc.IH[OF v]
  show ?case
  proof (cases "members p = []")
    case True
    with IH show ?thesis by (simp add: created_ms_snoc[OF snoc.prems])
  next
    case False
    let ?d = "minimized_states (created h ps)"
    let ?r = "length h + length (nonempty ps)"
    have eq: "minimized_states (created h (ps @ [p])) = AList.update (new_state_name h p) ?r ?d"
      using False by (simp add: created_ms_snoc[OF snoc.prems])
    have "\<exists>j < length (nonempty (ps @ [p])). r = length h + j \<and>
              k = new_state_name h (nonempty (ps @ [p]) ! j)"
      if "(k, r) \<in> set (AList.update (new_state_name h p) ?r ?d)" for k r
    proof -
      from set_update_cases[OF that] show ?thesis
      proof
        assume "(k, r) = (new_state_name h p, ?r)"
        with False show ?thesis
          by (intro exI[of _ "length (nonempty ps)"]) simp
      next
        assume "(k, r) \<in> set ?d"
        with IH obtain j where "j < length (nonempty ps)" "r = length h + j"
          "k = new_state_name h (nonempty ps ! j)" by blast
        then show ?thesis
          by (intro exI[of _ j]) (simp add: nth_append)
      qed
    qed
    with IH eq show ?thesis
      by (simp add: distinct_update split_beta) 
  qed
qed

lemma set_transition_upd:
  "r < length H \<Longrightarrow>
   set_transition o2m r H sn = H[r := (H ! r)\<lparr>transitions := put_transition o2m (transitions (H ! r)) sn\<rparr>]"
  by (cases sn) (simp add: set_transition_def put_transition_def split: option.splits)

lemma set_transition_fold:
  "r < length H \<Longrightarrow>
   foldl (set_transition o2m r) H items
     = H[r := (H ! r)\<lparr>transitions := foldl (put_transition o2m) (transitions (H ! r)) items\<rparr>]"
proof (induction items arbitrary: H)
  case Nil
  then show ?case by simp
next
  case (Cons sn items)
  let ?H = "H[r := (H ! r)\<lparr>transitions := put_transition o2m (transitions (H ! r)) sn\<rparr>]"
  have len: "r < length ?H" using Cons.prems by simp
  have "foldl (set_transition o2m r) H (sn # items) = foldl (set_transition o2m r) ?H items"
    by (simp add: set_transition_upd[OF Cons.prems])
  also have "\<dots> = ?H[r := (?H ! r)\<lparr>transitions := foldl (put_transition o2m) (transitions (?H ! r)) items\<rparr>]"
    by (rule Cons.IH[OF len])
  also have "\<dots> = H[r := (H ! r)\<lparr>transitions := foldl (put_transition o2m) (transitions (H ! r)) (sn # items)\<rparr>]"
    using Cons.prems by simp
  finally show ?case .
qed

lemma mk_transitions [simp]: "transitions (new_state_for h p) = []"
  by (simp add: new_state_for_def new_DFAState_def)

lemma define_transitions_step:
  assumes P: "P = ps @ p # rest" and v: "live_blocks h P"
    and G: "G = h @ map (minimized_state_for h o2m) (nonempty ps) @ map (new_state_for h) (nonempty (p # rest))"
    and o: "o2m = original_to_minimized (created h P)"
  shows "define_transitions (created h P) G (length ps, p)
           = h @ map (minimized_state_for h o2m) (nonempty (ps @ [p])) @ map (new_state_for h) (nonempty rest)"
proof (cases "members p")
  case Nil
  then show ?thesis by (simp add: define_transitions_def G)
next
  case (Cons rep xs)
  let ?r = "length h + length (nonempty ps)"
  let ?A = "h @ map (minimized_state_for h o2m) (nonempty ps)"
  let ?B = "map (new_state_for h) (nonempty rest)"
  have ne: "members p \<noteq> []" using Cons by simp
  have i: "length ps < length P" "P ! length ps = p" "take (length ps) P = ps"
    by (simp_all add: P)
  from created_p2s[OF v i(1)] ne i
  have p2s: "map_of (partition_to_state (created h P)) (length ps) = Some ?r"
    by simp
  have Geq: "G = ?A @ new_state_for h p # ?B"
    using ne by (simp add: G)
  have lenA: "length ?A = ?r" by simp
  have r: "?r < length G" by (simp add: Geq)
  have Gr: "G ! ?r = new_state_for h p"
    unfolding Geq lenA[symmetric] by (rule nth_append_length)
  from v have "rep < length h" by (simp add: P Cons)
  then have Grep: "G ! rep = h ! rep" by (simp add: G nth_append)
  have "define_transitions (created h P) G (length ps, p)
      = foldl (set_transition o2m ?r) G (transitions (h ! rep))"
    by (simp add: define_transitions_def Cons p2s Grep o)
  also have "\<dots> = G[?r := minimized_state_for h o2m p]"
    by (simp add: set_transition_fold[OF r] Gr minimized_state_for_def Cons)
  also have "\<dots> = ?A @ minimized_state_for h o2m p # ?B"
    unfolding Geq lenA[symmetric] by (rule list_update_length)
  finally show ?thesis using ne by simp
qed

lemma define_transitions_loop:
  assumes v: "live_blocks h P" and o: "o2m = original_to_minimized (created h P)"
  shows "P = ps @ rest \<Longrightarrow>
     foldl (define_transitions (created h P)) (m_heap (created h P)) (enumerate 0 ps)
       = h @ map (minimized_state_for h o2m) (nonempty ps) @ map (new_state_for h) (nonempty rest)"
proof (induction ps arbitrary: rest rule: rev_induct)
  case Nil
  then have "rest = P" by simp
  then show ?case by (simp add: created_heap[OF v])
next
  case (snoc p ps)
  then have P: "P = ps @ p # rest" by simp
  from snoc.IH[OF P]
  have G: "foldl (define_transitions (created h P)) (m_heap (created h P)) (enumerate 0 ps)
      = h @ map (minimized_state_for h o2m) (nonempty ps) @ map (new_state_for h) (nonempty (p # rest))" .
  show ?case
    by (simp only: enumerate_append_eq foldl_append enumerate_simps foldl_Cons foldl_Nil G
        add_0 define_transitions_step[OF P v refl o])
qed

lemma build_minimized_eq:
  assumes "live_blocks h P"
  shows "build_minimized h P
     = (created h P)\<lparr>m_heap := h @ map (minimized_state_for h (original_to_minimized (created h P))) (nonempty P)\<rparr>"
  using define_transitions_loop[OF assms refl, of P "[]"]
  by (simp add: build_minimized_def created_def Let_def)

section \<open>The minimized automaton simulates the original\<close>

lemma partition_index_none:
  "partition_index ps t n = - 1 \<longleftrightarrow> t \<notin> set (all_members ps)"
  by (induction ps arbitrary: n) auto

lemma partition_index_some:
  "t \<in> set (all_members ps) \<Longrightarrow>
   \<exists>i < length ps. partition_index ps t n = int (n + i) \<and> t \<in> set (members (ps ! i))"
proof (induction ps arbitrary: n)
  case Nil
  then show ?case by simp
next
  case (Cons p ps)
  show ?case
  proof (cases "t \<in> set (members p)")
    case True
    then show ?thesis by (intro exI[of _ 0]) simp
  next
    case False
    with Cons.prems have "t \<in> set (all_members ps)" by simp
    from Cons.IH[OF this, of "Suc n"] obtain i where
      "i < length ps" "partition_index ps t (Suc n) = int (Suc n + i)" "t \<in> set (members (ps ! i))"
      by blast
    with False show ?thesis by (intro exI[of _ "Suc i"]) simp
  qed
qed

lemma partition_index_same_block:
  assumes "t \<in> set (all_members ps)" and "t' \<in> set (all_members ps)"
    and "partition_index ps t 0 = partition_index ps t' 0"
  shows "\<exists>i < length ps. t \<in> set (members (ps ! i)) \<and> t' \<in> set (members (ps ! i))"
proof -
  from partition_index_some[OF assms(1), of 0] obtain i where
    i: "i < length ps" "partition_index ps t 0 = int i" "t \<in> set (members (ps ! i))" by auto
  from partition_index_some[OF assms(2), of 0] obtain i' where
    i': "i' < length ps" "partition_index ps t' 0 = int i'" "t' \<in> set (members (ps ! i'))" by auto
  from i(2) i'(2) assms(3) have "i = i'" by simp
  with i i' show ?thesis by blast
qed

lemma created_o2m_block:
  assumes "live_blocks h ps" and "distinct (all_members ps)"
    and "i < length ps" and "t \<in> set (members (ps ! i))"
  shows "map_of (original_to_minimized (created h ps)) t
           = Some (length h + length (nonempty (take i ps)))"
proof -
  from assms(4) have ne: "members (ps ! i) \<noteq> []" by auto
  from nonempty_index[OF assms(3) ne]
  have j: "length (nonempty (take i ps)) < length (nonempty ps)"
    and eq: "nonempty ps ! length (nonempty (take i ps)) = ps ! i" by simp_all
  from assms(4) have "t \<in> set (members (nonempty ps ! length (nonempty (take i ps))))"
    by (simp only: eq)
  from created_o2m[OF assms(1,2) j this] show ?thesis .
qed

lemma put_transition_lookup:
  "distinct (map fst items) \<Longrightarrow>
   map_of (foldl (put_transition o2m) tr items) a =
     (case map_of items a of
        None \<Rightarrow> map_of tr a
      | Some t \<Rightarrow> (case map_of o2m t of None \<Rightarrow> map_of tr a | Some nm \<Rightarrow> Some nm))"
proof (induction items arbitrary: tr)
  case Nil
  then show ?case by simp
next
  case (Cons st items)
  obtain s t where st: "st = (s, t)" by (cases st)
  from Cons.prems st have d: "distinct (map fst items)" and s: "s \<notin> fst ` set items" by simp_all
  from s have none: "map_of items s = None" by (simp add: map_of_eq_None_iff)
  let ?tr = "put_transition o2m tr (s, t)"
  have tr: "map_of ?tr x = (case map_of o2m t of None \<Rightarrow> map_of tr x
            | Some nm \<Rightarrow> if x = s then Some nm else map_of tr x)" for x
    by (simp add: put_transition_def update_conv' split: option.splits)
  have "map_of (foldl (put_transition o2m) tr (st # items)) a
      = map_of (foldl (put_transition o2m) ?tr items) a"
    by (simp add: st)
  also have "\<dots> = (case map_of items a of
        None \<Rightarrow> map_of ?tr a
      | Some t' \<Rightarrow> (case map_of o2m t' of None \<Rightarrow> map_of ?tr a | Some nm \<Rightarrow> Some nm))"
    by (rule Cons.IH[OF d])
  also have "\<dots> = (case map_of (st # items) a of
        None \<Rightarrow> map_of tr a
      | Some t \<Rightarrow> (case map_of o2m t of None \<Rightarrow> map_of tr a | Some nm \<Rightarrow> Some nm))"
  proof (cases "a = s")
    case True
    then show ?thesis by (simp add: st none tr split: option.splits)
  next
    case False
    then show ?thesis by (simp add: st tr split: option.splits)
  qed
  finally show ?case .
qed

lemma sorted_alphabet_keys:
  assumes "r \<in> set (dict_values d)" and "map_of (transitions (h ! r)) a = Some t"
  shows "a \<in> set (sorted_alphabet h d)"
proof -
  from assms(2) have "a \<in> fst ` set (transitions (h ! r))"
    by (metis map_of_eq_None_iff option.distinct(1))
  with assms(1) show ?thesis
    by (auto simp: sorted_alphabet_def)
qed

lemma transition_key_eqD:
  assumes "transition_key h alphabet ps x = transition_key h alphabet ps y" and "a \<in> set alphabet"
  shows "(case map_of (transitions (h ! x)) a of None \<Rightarrow> - 1
          | Some t \<Rightarrow> partition_index ps t 0)
       = (case map_of (transitions (h ! y)) a of None \<Rightarrow> - 1
          | Some t \<Rightarrow> partition_index ps t 0)"
  using assms unfolding transition_key_def by (simp only: map_eq_conv)

lemma same_block_transitions:
  assumes live: "live_blocks h R" and dist: "distinct (all_members R)"
    and cover: "set (all_members R) = S" and st: "stable h alphabet R"
    and closed: "\<forall>q \<in> S. \<forall>a t. map_of (transitions (h ! q)) a = Some t \<longrightarrow>
                   t \<in> S \<and> a \<in> set alphabet"
    and i: "i < length R" and x: "x \<in> set (members (R ! i))" and y: "y \<in> set (members (R ! i))"
  shows "(case map_of (transitions (h ! x)) a of None \<Rightarrow> None
          | Some t \<Rightarrow> map_of (original_to_minimized (created h R)) t)
       = (case map_of (transitions (h ! y)) a of None \<Rightarrow> None
          | Some t \<Rightarrow> map_of (original_to_minimized (created h R)) t)"
proof -
  let ?\<mu> = "map_of (original_to_minimized (created h R))"
  from i have Ri: "R ! i \<in> set R" by simp
  with x y cover have xS: "x \<in> S" and yS: "y \<in> S"
    by (auto simp: in_all_members)
  from st Ri x y have key: "transition_key h alphabet R x = transition_key h alphabet R y"
    unfolding stable_def by blast
  show ?thesis
  proof (cases "a \<in> set alphabet")
    case False
    with closed xS yS have "map_of (transitions (h ! x)) a = None"
      "map_of (transitions (h ! y)) a = None"
      by (metis option.exhaust)+
    then show ?thesis by simp
  next
    case True
    note eq = transition_key_eqD[OF key True]
    show ?thesis
    proof (cases "map_of (transitions (h ! x)) a")
      case None
      show ?thesis
      proof (cases "map_of (transitions (h ! y)) a")
        case None': None
        with None show ?thesis by simp
      next
        case (Some t')
        with closed yS cover have "t' \<in> set (all_members R)" by blast
        moreover from eq None Some have "partition_index R t' 0 = - 1" by simp
        ultimately show ?thesis by (simp add: partition_index_none)
      qed
    next
      case (Some t)
      with closed xS cover have t: "t \<in> set (all_members R)" by blast
      show ?thesis
      proof (cases "map_of (transitions (h ! y)) a")
        case None
        with eq Some have "partition_index R t 0 = - 1" by simp
        with t show ?thesis by (simp add: partition_index_none)
      next
        case Some': (Some t')
        with closed yS cover have t': "t' \<in> set (all_members R)" by blast
        from eq Some Some' have "partition_index R t 0 = partition_index R t' 0" by simp
        from partition_index_same_block[OF t t' this] obtain k where
          k: "k < length R" "t \<in> set (members (R ! k))" "t' \<in> set (members (R ! k))" by blast
        from created_o2m_block[OF live dist k(1) k(2)] created_o2m_block[OF live dist k(1) k(3)]
        have "?\<mu> t = ?\<mu> t'" by simp
        with Some Some' show ?thesis by simp
      qed
    qed
  qed
qed

lemma minimized_state_for_fields:
  "is_accepting (minimized_state_for h o2m p) = list_ex (\<lambda>s. is_accepting (h ! s)) (members p)"
  "transitions (minimized_state_for h o2m p)
     = foldl (put_transition o2m) [] (transitions (h ! hd (members p)))"
  "name (minimized_state_for h o2m p) = new_state_name h p"
  by (simp_all add: minimized_state_for_def new_state_for_def new_DFAState_def)

lemma build_minimized_fields:
  assumes "live_blocks h R"
  shows "original_to_minimized (build_minimized h R) = original_to_minimized (created h R)"
    and "minimized_states (build_minimized h R) = minimized_states (created h R)"
    and "m_heap (build_minimized h R)
           = h @ map (minimized_state_for h (original_to_minimized (created h R))) (nonempty R)"
  by (simp_all add: build_minimized_eq[OF assms])

lemma build_minimized_nth:
  assumes live: "live_blocks h R" and i: "i < length R" and ne: "members (R ! i) \<noteq> []"
  shows "m_heap (build_minimized h R) ! (length h + length (nonempty (take i R)))
           = minimized_state_for h (original_to_minimized (created h R)) (R ! i)"
proof -
  from nonempty_index[OF i ne]
  have j: "length (nonempty (take i R)) < length (nonempty R)"
    and eq: "nonempty R ! length (nonempty (take i R)) = R ! i" by simp_all
  show ?thesis
    using j by (simp add: build_minimized_fields(3)[OF live] eq)
qed

lemma build_simulates:
  assumes live: "live_blocks h R" and dist: "distinct (all_members R)"
    and cover: "set (all_members R) = S" and hom: "homogeneous h R"
    and st: "stable h alphabet R"
    and keys: "\<forall>q \<in> S. distinct (map fst (transitions (h ! q)))"
    and closed: "\<forall>q \<in> S. \<forall>a t. map_of (transitions (h ! q)) a = Some t \<longrightarrow>
                   t \<in> S \<and> a \<in> set alphabet"
  shows "simulated_by h S (m_heap (build_minimized h R))
           (map_of (original_to_minimized (build_minimized h R)))"
  unfolding simulated_by_def
proof
  fix q assume q: "q \<in> S"
  let ?o = "original_to_minimized (created h R)"
  let ?\<mu> = "map_of ?o"
  let ?H = "m_heap (build_minimized h R)"
  from q cover obtain p where "p \<in> set R" "q \<in> set (members p)"
    by (auto simp: in_all_members)
  then obtain i where i: "i < length R" and qi: "q \<in> set (members (R ! i))"
    by (auto simp: in_set_conv_nth)
  then have ne: "members (R ! i) \<noteq> []" by auto
  let ?m = "length h + length (nonempty (take i R))"
  let ?rep = "hd (members (R ! i))"
  have rep: "?rep \<in> set (members (R ! i))" using ne by simp
  from i have Ri: "R ! i \<in> set R" by simp
  with rep cover have repS: "?rep \<in> S" by (auto simp: in_all_members)
  have mu: "?\<mu> q = Some ?m" by (rule created_o2m_block[OF live dist i qi])
  have Hm: "?H ! ?m = minimized_state_for h ?o (R ! i)"
    by (rule build_minimized_nth[OF live i ne])
  have acc: "is_accepting (?H ! ?m) = is_accepting (h ! q)"
    using hom Ri qi unfolding homogeneous_def Hm minimized_state_for_fields list_ex_iff
    by blast
  have tr: "map_of (transitions (?H ! ?m)) a =
      (case map_of (transitions (h ! q)) a of None \<Rightarrow> None | Some t \<Rightarrow> ?\<mu> t)" for a
  proof -
    from keys repS have d: "distinct (map fst (transitions (h ! ?rep)))" by blast
    have "map_of (transitions (?H ! ?m)) a =
        (case map_of (transitions (h ! ?rep)) a of None \<Rightarrow> None | Some t \<Rightarrow> ?\<mu> t)"
      unfolding Hm minimized_state_for_fields put_transition_lookup[OF d]
      by (simp split: option.splits)
    also have "\<dots> = (case map_of (transitions (h ! q)) a of None \<Rightarrow> None | Some t \<Rightarrow> ?\<mu> t)"
      by (rule same_block_transitions[OF live dist cover st closed i rep qi])
    finally show ?thesis .
  qed
  from closed q have cl: "\<forall>a t. map_of (transitions (h ! q)) a = Some t \<longrightarrow> t \<in> S" by blast
  show "\<exists>m. map_of (original_to_minimized (build_minimized h R)) q = Some m \<and>
        is_accepting (?H ! m) = is_accepting (h ! q) \<and>
        (\<forall>a. map_of (transitions (?H ! m)) a =
               (case map_of (transitions (h ! q)) a of None \<Rightarrow> None
                | Some t \<Rightarrow> map_of (original_to_minimized (build_minimized h R)) t)) \<and>
        (\<forall>a t. map_of (transitions (h ! q)) a = Some t \<longrightarrow> t \<in> S)"
    unfolding build_minimized_fields(1)[OF live]
    using mu acc tr cl by blast
qed

lemma step_animation_inside:
  assumes "animation_sequence u \<noteq> []" and "tokens u \<noteq> []"
    and "animation_step u < length (animation_sequence u)"
  shows "step_animation u =
     (u\<lparr>current_state := next_state u, animation_step := Suc (animation_step u)\<rparr>,
      if length (animation_sequence u) \<le> Suc (animation_step u) \<or> next_state u = None
      then Some (case next_state u of None \<Rightarrow> False | Some c \<Rightarrow> is_accepting (heap u ! c))
      else None)"
  using assms by (simp add: step_animation_def next_state_def Let_def cong: option.case_cong)

lemma lift_fields [simp]:
  "animation_sequence (lift H D \<mu> s u) = animation_sequence u"
  "tokens (lift H D \<mu> s u) = tokens u"
  "animation_step (lift H D \<mu> s u) = animation_step u"
  "heap (lift H D \<mu> s u) = H"
  "start_state (lift H D \<mu> s u) = \<mu> s"
  "current_state (lift H D \<mu> s u) = (case current_state u of None \<Rightarrow> None | Some q \<Rightarrow> \<mu> q)"
  by (simp_all add: lift_def)

lemma lift_reset:
  "start_state u = Some s \<Longrightarrow> reset_animation (lift H D \<mu> s u) = lift H D \<mu> s (reset_animation u)"
  by (simp add: lift_def reset_animation_def)

lemma lift_update:
  "(lift H D \<mu> s u)\<lparr>current_state := (case c of None \<Rightarrow> None | Some q \<Rightarrow> \<mu> q),
                      animation_step := n\<rparr>
     = lift H D \<mu> s (u\<lparr>current_state := c, animation_step := n\<rparr>)"
  by (simp add: lift_def)

lemma next_state_lift:
  assumes sim: "simulated_by (heap u) S H \<mu>"
    and start: "start_state u = Some s" "s \<in> S"
    and cur: "\<forall>q. current_state u = Some q \<longrightarrow> q \<in> S"
  shows "next_state (lift H D \<mu> s u) = (case next_state u of None \<Rightarrow> None | Some q \<Rightarrow> \<mu> q)"
    and "\<forall>q. next_state u = Some q \<longrightarrow>
           q \<in> S \<and> (\<exists>m. \<mu> q = Some m \<and> is_accepting (H ! m) = is_accepting (heap u ! q))"
proof -
  define q0 where "q0 = (case current_state u of None \<Rightarrow> s | Some c \<Rightarrow> c)"
  have q0: "q0 \<in> S" using start(2) cur by (auto simp: q0_def split: option.splits)
  from sim q0 obtain m0 where m0: "\<mu> q0 = Some m0"
    and tr: "\<And>a. map_of (transitions (H ! m0)) a =
               (case map_of (transitions (heap u ! q0)) a of None \<Rightarrow> None | Some t \<Rightarrow> \<mu> t)"
    and cl: "\<And>a t. map_of (transitions (heap u ! q0)) a = Some t \<Longrightarrow> t \<in> S"
    unfolding simulated_by_def by blast
  have nu: "next_state u = map_of (transitions (heap u ! q0))
                             (animation_sequence u ! animation_step u)"
    using start(1) by (simp add: next_state_def q0_def split: option.splits)
  have "(case (case current_state u of None \<Rightarrow> None | Some q \<Rightarrow> \<mu> q) of
           None \<Rightarrow> \<mu> s | Some c \<Rightarrow> Some c) = Some m0"
    using m0 by (simp add: q0_def split: option.splits)
  then have nl: "next_state (lift H D \<mu> s u) = map_of (transitions (H ! m0))
                             (animation_sequence u ! animation_step u)"
    unfolding next_state_def lift_fields by simp
  show "next_state (lift H D \<mu> s u) = (case next_state u of None \<Rightarrow> None | Some q \<Rightarrow> \<mu> q)"
    unfolding nl nu by (rule tr)
  show "\<forall>q. next_state u = Some q \<longrightarrow>
           q \<in> S \<and> (\<exists>m. \<mu> q = Some m \<and> is_accepting (H ! m) = is_accepting (heap u ! q))"
  proof (intro allI impI)
    fix q assume "next_state u = Some q"
    with nu cl have "q \<in> S" by simp
    with sim show "q \<in> S \<and> (\<exists>m. \<mu> q = Some m \<and> is_accepting (H ! m) = is_accepting (heap u ! q))"
      unfolding simulated_by_def by blast
  qed
qed

lemma step_animation_lift:
  assumes sim: "simulated_by (heap u) S H \<mu>"
    and start: "start_state u = Some s" "s \<in> S"
    and cur: "\<forall>q. current_state u = Some q \<longrightarrow> q \<in> S"
  shows "step_animation (lift H D \<mu> s u)
           = (lift H D \<mu> s (fst (step_animation u)), snd (step_animation u))"
    and "heap (fst (step_animation u)) = heap u"
    and "start_state (fst (step_animation u)) = Some s"
    and "\<forall>q. current_state (fst (step_animation u)) = Some q \<longrightarrow> q \<in> S"
proof -
  consider (empty) "animation_sequence u = [] \<or> tokens u = []"
    | (over) "animation_sequence u \<noteq> []" "tokens u \<noteq> []"
        "length (animation_sequence u) \<le> animation_step u"
    | (inside) "animation_sequence u \<noteq> []" "tokens u \<noteq> []"
        "animation_step u < length (animation_sequence u)"
    by fastforce
  then have "step_animation (lift H D \<mu> s u)
           = (lift H D \<mu> s (fst (step_animation u)), snd (step_animation u)) \<and>
    heap (fst (step_animation u)) = heap u \<and>
    start_state (fst (step_animation u)) = Some s \<and>
    (\<forall>q. current_state (fst (step_animation u)) = Some q \<longrightarrow> q \<in> S)"
  proof cases
    case empty
    then have "step_animation u = (u, None)"
      "step_animation (lift H D \<mu> s u) = (lift H D \<mu> s u, None)"
      by (auto simp: step_animation_def)
    with start cur show ?thesis by simp
  next
    case over
    then have "step_animation u = (reset_animation u, None)"
      "step_animation (lift H D \<mu> s u) = (reset_animation (lift H D \<mu> s u), None)"
      by (simp_all add: step_animation_at_end)
    with start cur show ?thesis
      by (simp add: lift_reset[OF start(1)]) (simp add: reset_animation_def)
  next
    case inside
    note nl = next_state_lift[OF sim start cur]
    have su: "step_animation u =
       (u\<lparr>current_state := next_state u, animation_step := Suc (animation_step u)\<rparr>,
        if length (animation_sequence u) \<le> Suc (animation_step u) \<or> next_state u = None
        then Some (case next_state u of None \<Rightarrow> False | Some c \<Rightarrow> is_accepting (heap u ! c))
        else None)"
      by (rule step_animation_inside[OF inside])
    have sl: "step_animation (lift H D \<mu> s u) =
       ((lift H D \<mu> s u)\<lparr>current_state := next_state (lift H D \<mu> s u),
                           animation_step := Suc (animation_step u)\<rparr>,
        if length (animation_sequence u) \<le> Suc (animation_step u)
           \<or> next_state (lift H D \<mu> s u) = None
        then Some (case next_state (lift H D \<mu> s u) of None \<Rightarrow> False
                   | Some c \<Rightarrow> is_accepting (H ! c))
        else None)"
      using step_animation_inside[of "lift H D \<mu> s u"] inside
      by (simp cong: option.case_cong)
    have none: "next_state (lift H D \<mu> s u) = None \<longleftrightarrow> next_state u = None"
      using nl by (auto split: option.splits)
    have acc: "(case next_state (lift H D \<mu> s u) of None \<Rightarrow> False
                   | Some c \<Rightarrow> is_accepting (H ! c))
        = (case next_state u of None \<Rightarrow> False | Some c \<Rightarrow> is_accepting (heap u ! c))"
      using nl by (auto split: option.splits)
    have st: "(lift H D \<mu> s u)\<lparr>current_state := next_state (lift H D \<mu> s u),
                           animation_step := Suc (animation_step u)\<rparr>
        = lift H D \<mu> s (u\<lparr>current_state := next_state u,
                              animation_step := Suc (animation_step u)\<rparr>)"
      unfolding nl(1) by (rule lift_update)
    show ?thesis
      unfolding sl su st none acc using start nl(2) by simp
  qed
  then show "step_animation (lift H D \<mu> s u)
           = (lift H D \<mu> s (fst (step_animation u)), snd (step_animation u))"
    and "heap (fst (step_animation u)) = heap u"
    and "start_state (fst (step_animation u)) = Some s"
    and "\<forall>q. current_state (fst (step_animation u)) = Some q \<longrightarrow> q \<in> S"
    by blast+
qed

lemma run_lift:
  assumes "simulated_by (heap u) S H \<mu>"
    and "start_state u = Some s" "s \<in> S"
    and "\<forall>q. current_state u = Some q \<longrightarrow> q \<in> S"
  shows "run n (lift H D \<mu> s u) = run n u"
  using assms
proof (induction n arbitrary: u)
  case 0
  then show ?case by simp
next
  case (Suc n)
  note s = step_animation_lift[OF Suc.prems]
  obtain u' b where ub: "step_animation u = (u', b)" by (cases "step_animation u")
  with s have sl: "step_animation (lift H D \<mu> s u) = (lift H D \<mu> s u', b)"
    and inv: "heap u' = heap u" "start_state u' = Some s"
      "\<forall>q. current_state u' = Some q \<longrightarrow> q \<in> S"
    by simp_all
  from Suc.prems(1) inv(1) have sim': "simulated_by (heap u') S H \<mu>" by simp
  show ?case
  proof (cases b)
    case None
    with ub sl Suc.IH[OF sim' inv(2) Suc.prems(3) inv(3)] show ?thesis by simp
  next
    case (Some x)
    with ub sl show ?thesis by simp
  qed
qed

section \<open>Naming the minimized start state\<close>

lemma join_START:
  assumes "xs \<noteq> []" and "join '', '' xs = ''START''"
  shows "xs = [''START'']"
proof (cases xs)
  case Nil
  with assms show ?thesis by simp
next
  case (Cons x ys)
  show ?thesis
  proof (cases ys)
    case Nil
    with Cons assms show ?thesis by simp
  next
    case (Cons y zs)
    with \<open>xs = x # ys\<close> assms(2) have eq: "x @ '', '' @ join '', '' (y # zs) = ''START''"
      by simp
    have "CHR '','' \<in> set (x @ '', '' @ join '', '' (y # zs))"
      by simp
    then have "CHR '','' \<in> set ''START''"
      unfolding eq .
    then show ?thesis by simp
  qed
qed

lemma new_state_name_START:
  assumes "members p \<noteq> []" and "new_state_name h p = ''START''"
  shows "\<exists>x. members p = [x] \<and> name (h ! x) = ''START''"
proof -
  let ?ns = "map (\<lambda>s. name (h ! s)) (members p)"
  from assms(1) have "sort ?ns \<noteq> []"
    by (metis length_sort length_map length_0_conv)
  from join_START[OF this] assms(2) have s: "sort ?ns = [''START'']"
    by (simp add: new_state_name_def)
  then have "length (sort ?ns) = 1" by simp
  then have "length (members p) = 1" by simp
  then obtain x where x: "members p = [x]"
    by (cases "members p") auto
  with s show ?thesis by simp
qed

lemma build_minimized_dict:
  assumes live: "live_blocks h R"
    and kr: "(k, r) \<in> set (minimized_states (build_minimized h R))"
  shows "\<exists>j < length (nonempty R). r = length h + j \<and> k = new_state_name h (nonempty R ! j) \<and>
           name (m_heap (build_minimized h R) ! r) = k \<and>
           r < length (m_heap (build_minimized h R))"
proof -
  from kr have "(k, r) \<in> set (minimized_states (created h R))"
    by (simp add: build_minimized_fields(2)[OF live])
  with created_ms[OF live] obtain j where j: "j < length (nonempty R)" "r = length h + j"
    "k = new_state_name h (nonempty R ! j)" by blast
  have "m_heap (build_minimized h R) ! r
      = minimized_state_for h (original_to_minimized (created h R)) (nonempty R ! j)"
    using j(1) by (simp add: build_minimized_fields(3)[OF live] j(2))
  then have "name (m_heap (build_minimized h R) ! r) = k"
    by (simp add: minimized_state_for_fields j(3))
  moreover have "r < length (m_heap (build_minimized h R))"
    using j(1) by (simp add: build_minimized_fields(3)[OF live] j(2))
  ultimately show ?thesis using j by blast
qed

lemma build_minimized_dict_distinct:
  assumes "live_blocks h R"
  shows "distinct (map fst (minimized_states (build_minimized h R)))"
  using created_ms[OF assms] by (simp add: build_minimized_fields(2)[OF assms])

lemma find_unique:
  assumes "m \<in> set xs" and "P m" and "\<forall>x \<in> set xs. P x \<longrightarrow> x = m"
  shows "find P xs = Some m"
  using assms
proof (induction xs)
  case Nil
  then show ?case by simp
next
  case (Cons x xs)
  show ?case
  proof (cases "P x")
    case True
    with Cons.prems(3) have "x = m" by simp
    with True show ?thesis by simp
  next
    case False
    with Cons.prems(1,2) have "m \<in> set xs" by auto
    from Cons.IH[OF this Cons.prems(2)] Cons.prems(3) False show ?thesis by simp
  qed
qed

lemma rename_fields:
  "is_accepting (rename H r nm ! x) = is_accepting (H ! x)"
  "transitions (rename H r nm ! x) = transitions (H ! x)"
  "length (rename H r nm) = length H"
proof -
  show "is_accepting (rename H r nm ! x) = is_accepting (H ! x)"
    by (cases "r < length H") (simp_all add: rename_def nth_list_update list_update_beyond)
  show "transitions (rename H r nm ! x) = transitions (H ! x)"
    by (cases "r < length H") (simp_all add: rename_def nth_list_update list_update_beyond)
  show "length (rename H r nm) = length H"
    by (simp add: rename_def)
qed

lemma rename_name:
  "r < length H \<Longrightarrow> name (rename H r nm ! x) = (if x = r then nm else name (H ! x))"
  by (simp add: rename_def nth_list_update)

lemma update_entry:
  assumes "distinct (map fst al)" and "(k', r') \<in> set (AList.update k v al)"
  shows "(k' = k \<and> r' = v) \<or> (k' \<noteq> k \<and> (k', r') \<in> set al)"
proof -
  have d: "distinct (map fst (AList.update k v al))"
    using assms(1) by (rule distinct_update)
  from map_of_is_SomeI[OF d assms(2)]
  have m: "((map_of al)(k \<mapsto> v)) k' = Some r'" by (simp add: update_conv')
  show ?thesis
  proof (cases "k' = k")
    case True
    with m show ?thesis by simp
  next
    case False
    with m have "map_of al k' = Some r'" by simp
    from map_of_SomeD[OF this] False show ?thesis by simp
  qed
qed

lemma delete_entry:
  "(k', r') \<in> set (AList.delete k al) \<longleftrightarrow> k' \<noteq> k \<and> (k', r') \<in> set al"
  by (auto simp: AList.delete_eq)

lemma start_block_name:
  assumes live: "live_blocks h R" and dist: "distinct (all_members R)"
    and names: "inj_on (\<lambda>q. name (h ! q)) (set (all_members R))"
    and i: "i < length R" and s: "s \<in> set (members (R ! i))"
    and nm: "new_state_name h (R ! i) = ''START''"
    and d: "(''START'', s') \<in> set (minimized_states (build_minimized h R))"
  shows "s' = length h + length (nonempty (take i R))"
proof -
  from s have ne: "members (R ! i) \<noteq> []" by auto
  from new_state_name_START[OF ne nm] s have sn: "name (h ! s) = ''START''" by auto
  from build_minimized_dict[OF live d] obtain j where
    j: "j < length (nonempty R)" "s' = length h + j"
       "new_state_name h (nonempty R ! j) = ''START''" by auto
  from nonempty_nth[OF j(1)] have p: "nonempty R ! j \<in> set R" "members (nonempty R ! j) \<noteq> []"
    by simp_all
  from new_state_name_START[OF p(2) j(3)] obtain x where
    x: "members (nonempty R ! j) = [x]" "name (h ! x) = ''START''" by blast
  from x(1) have "x \<in> set (members (nonempty R ! j))" by simp
  with p(1) have xin: "x \<in> set (all_members R)"
    unfolding in_all_members by blast
  from i have "R ! i \<in> set R" by simp
  with s have sin: "s \<in> set (all_members R)"
    unfolding in_all_members by blast
  from x(2) sn have "(\<lambda>q. name (h ! q)) x = (\<lambda>q. name (h ! q)) s" by simp
  from inj_onD[OF names this xin sin] have "x = s" .
  with x(1) have "s \<in> set (members (nonempty R ! j))" by simp
  from created_o2m[OF live dist j(1) this] created_o2m_block[OF live dist i s]
  have "length h + j = length h + length (nonempty (take i R))" by simp
  with j(2) show ?thesis by simp
qed

lemma fix_start_result:
  assumes live: "live_blocks h R" and dist: "distinct (all_members R)"
    and names: "inj_on (\<lambda>q. name (h ! q)) (set (all_members R))"
    and s: "s \<in> set (all_members R)"
  shows "\<exists>H' D' ms. fix_start (Some s) R (build_minimized h R) = (H', D') \<and>
      map_of (original_to_minimized (build_minimized h R)) s = Some ms \<and>
      find_new_start (Some s) R (original_to_minimized (build_minimized h R)) = Some ms \<and>
      (\<forall>x. is_accepting (H' ! x) = is_accepting (m_heap (build_minimized h R) ! x) \<and>
           transitions (H' ! x) = transitions (m_heap (build_minimized h R) ! x)) \<and>
      name (H' ! ms) = ''START'' \<and> map_of D' ''START'' = Some ms \<and>
      find (\<lambda>r. name (H' ! r) = ''START'') (dict_values D') = Some ms"
proof -
  let ?B = "build_minimized h R"
  let ?H = "m_heap ?B" and ?D = "minimized_states ?B" and ?o = "original_to_minimized ?B"
  from s obtain p where "p \<in> set R" "s \<in> set (members p)"
    by (auto simp: in_all_members)
  then obtain i where i: "i < length R" and si: "s \<in> set (members (R ! i))"
    by (auto simp: in_set_conv_nth)
  then have ne: "members (R ! i) \<noteq> []" by auto
  define ms where "ms = length h + length (nonempty (take i R))"
  have mu: "map_of ?o s = Some ms"
    unfolding ms_def build_minimized_fields(1)[OF live]
    by (rule created_o2m_block[OF live dist i si])
  have "list_ex (\<lambda>p. s \<in> set (members p)) R"
    using \<open>p \<in> set R\<close> \<open>s \<in> set (members p)\<close> by (auto simp: list_ex_iff)
  then have fns: "find_new_start (Some s) R ?o = Some ms"
    by (simp add: find_new_start_def mu)
  from nonempty_index[OF i ne] have len: "ms < length ?H"
    by (simp add: ms_def build_minimized_fields(3)[OF live])
  have nms: "name (?H ! ms) = new_state_name h (R ! i)"
    unfolding ms_def build_minimized_nth[OF live i ne]
    by (simp add: minimized_state_for_fields)
  have inv: "name (?H ! r) = k" if "(k, r) \<in> set ?D" for k r
    using build_minimized_dict[OF live that] by blast
  have dD: "distinct (map fst ?D)"
    by (rule build_minimized_dict_distinct[OF live])
  show ?thesis
  proof (cases "map_of ?D ''START''")
    case None
    let ?H' = "rename ?H ms ''START''" and ?D' = "AList.update ''START'' ms ?D"
    have fs: "fix_start (Some s) R ?B = (?H', ?D')"
      by (simp add: fix_start_def Let_def fns None)
    have nH': "name (?H' ! ms) = ''START''"
      by (simp add: rename_name[OF len])
    have mD': "map_of ?D' ''START'' = Some ms"
      by (simp add: update_conv')
    have "find (\<lambda>r. name (?H' ! r) = ''START'') (dict_values ?D') = Some ms"
    proof (rule find_unique)
      from map_of_SomeD[OF mD'] show "ms \<in> set (dict_values ?D')"
        by (force simp: dict_values_def)
      show "name (?H' ! ms) = ''START''" by (rule nH')
      show "\<forall>r \<in> set (dict_values ?D'). name (?H' ! r) = ''START'' \<longrightarrow> r = ms"
      proof (intro ballI impI)
        fix r assume "r \<in> set (dict_values ?D')" and n: "name (?H' ! r) = ''START''"
        then obtain k where "(k, r) \<in> set ?D'" by (auto simp: dict_values_def)
        from update_entry[OF dD this] show "r = ms"
        proof
          assume "k = ''START'' \<and> r = ms" then show ?thesis by simp
        next
          assume a: "k \<noteq> ''START'' \<and> (k, r) \<in> set ?D"
          with inv have "name (?H ! r) \<noteq> ''START''" by auto
          with n show ?thesis by (cases "r = ms") (simp_all add: rename_name[OF len])
        qed
      qed
    qed
    with fs mu fns nH' mD' show ?thesis
      by (simp add: rename_fields)
  next
    case (Some s')
    from map_of_SomeD[OF Some] have s'D: "(''START'', s') \<in> set ?D" .
    show ?thesis
    proof (cases "s' = ms")
      case True
      have fs: "fix_start (Some s) R ?B = (?H, ?D)"
        by (simp add: fix_start_def Let_def fns Some True)
      from inv[OF s'D] True have nH: "name (?H ! ms) = ''START''" by simp
      have "find (\<lambda>r. name (?H ! r) = ''START'') (dict_values ?D) = Some ms"
      proof (rule find_unique)
        from s'D True show "ms \<in> set (dict_values ?D)"
          by (force simp: dict_values_def)
        show "name (?H ! ms) = ''START''" by (rule nH)
        show "\<forall>r \<in> set (dict_values ?D). name (?H ! r) = ''START'' \<longrightarrow> r = ms"
        proof (intro ballI impI)
          fix r assume "r \<in> set (dict_values ?D)" and n: "name (?H ! r) = ''START''"
          then obtain k where k: "(k, r) \<in> set ?D" by (auto simp: dict_values_def)
          with inv n have "(''START'', r) \<in> set ?D" by auto
          from map_of_is_SomeI[OF dD this] Some True show "r = ms" by simp
        qed
      qed
      with fs mu fns nH Some True show ?thesis by simp
    next
      case False
      let ?n = "name (?H ! ms)"
      let ?H' = "rename ?H ms ''START''"
        and ?D' = "AList.delete ?n (AList.update ''START'' ms ?D)"
      have fs: "fix_start (Some s) R ?B = (?H', ?D')"
        by (simp add: fix_start_def Let_def fns Some False)
      have nne: "?n \<noteq> ''START''"
      proof
        assume "?n = ''START''"
        with nms have "new_state_name h (R ! i) = ''START''" by simp
        from start_block_name[OF live dist names i si this s'D] False
        show False by (simp add: ms_def)
      qed
      have nH': "name (?H' ! ms) = ''START''"
        by (simp add: rename_name[OF len])
      have mD': "map_of ?D' ''START'' = Some ms"
        using nne by (simp add: update_conv')
      have "find (\<lambda>r. name (?H' ! r) = ''START'') (dict_values ?D') = Some ms"
      proof (rule find_unique)
        from map_of_SomeD[OF mD'] show "ms \<in> set (dict_values ?D')"
          by (force simp: dict_values_def)
        show "name (?H' ! ms) = ''START''" by (rule nH')
        show "\<forall>r \<in> set (dict_values ?D'). name (?H' ! r) = ''START'' \<longrightarrow> r = ms"
        proof (intro ballI impI)
          fix r assume "r \<in> set (dict_values ?D')" and n: "name (?H' ! r) = ''START''"
          then obtain k where "(k, r) \<in> set ?D'" by (auto simp: dict_values_def)
          then have "(k, r) \<in> set (AList.update ''START'' ms ?D)"
            by (simp add: delete_entry)
          from update_entry[OF dD this] show "r = ms"
          proof
            assume "k = ''START'' \<and> r = ms" then show ?thesis by simp
          next
            assume a: "k \<noteq> ''START'' \<and> (k, r) \<in> set ?D"
            with inv have "name (?H ! r) \<noteq> ''START''" by auto
            with n show ?thesis by (cases "r = ms") (simp_all add: rename_name[OF len])
          qed
        qed
      qed
      with fs mu fns nH' mD' show ?thesis
        by (simp add: rename_fields)
    qed
  qed
qed

section \<open>Correctness of the minimizer\<close>

lemma set_orders_facts:
  assumes "set_orders v na acc"
  shows "distinct (all_members (initial_partitions na acc))"
    and "set (all_members (initial_partitions na acc)) = set (dict_values (states v))"
    and "homogeneous (heap v) (initial_partitions na acc)"
proof -
  from assms have d: "distinct na" "distinct acc"
    and na: "set na = {r \<in> set (dict_values (states v)). \<not> is_accepting (heap v ! r)}"
    and acc: "set acc = {r \<in> set (dict_values (states v)). is_accepting (heap v ! r)}"
    by (auto simp: set_orders_def)
  from na acc have "set na \<inter> set acc = {}" by auto
  with d show "distinct (all_members (initial_partitions na acc))"
    by (simp add: initial_partitions_def)
  from na acc show "set (all_members (initial_partitions na acc)) = set (dict_values (states v))"
    by (auto simp: initial_partitions_def)
  from na acc show "homogeneous (heap v) (initial_partitions na acc)"
    by (auto simp: homogeneous_def initial_partitions_def)
qed

lemma well_formed_facts:
  assumes "well_formed v"
  shows "\<forall>r \<in> set (dict_values (states v)). r < length (heap v)"
    and "\<forall>q \<in> set (dict_values (states v)). distinct (map fst (transitions (heap v ! q)))"
    and "inj_on (\<lambda>q. name (heap v ! q)) (set (dict_values (states v)))"
    and "\<forall>q \<in> set (dict_values (states v)). \<forall>a t.
           map_of (transitions (heap v ! q)) a = Some t \<longrightarrow>
           t \<in> set (dict_values (states v)) \<and>
           a \<in> set (sorted_alphabet (heap v) (states v))"
    and "\<exists>s. start_state v = Some s \<and> s \<in> set (dict_values (states v))"
proof -
  from assms have dk: "distinct (map fst (states v))"
    and ent: "\<And>k r. (k, r) \<in> set (states v) \<Longrightarrow>
        r < length (heap v) \<and> name (heap v ! r) = k \<and>
        distinct (map fst (transitions (heap v ! r)))"
    and nd: "no_dangling (heap v) (states v)"
    and st: "case start_state v of None \<Rightarrow> False | Some s \<Rightarrow> s \<in> set (dict_values (states v))"
    by (auto simp: well_formed_def)
  have val: "\<exists>k. (k, r) \<in> set (states v)" if "r \<in> set (dict_values (states v))" for r
    using that by (auto simp: dict_values_def)
  show "\<forall>r \<in> set (dict_values (states v)). r < length (heap v)"
    using val ent by blast
  show "\<forall>q \<in> set (dict_values (states v)). distinct (map fst (transitions (heap v ! q)))"
    using val ent by blast
  show "inj_on (\<lambda>q. name (heap v ! q)) (set (dict_values (states v)))"
  proof (rule inj_onI)
    fix x y
    assume x: "x \<in> set (dict_values (states v))" and y: "y \<in> set (dict_values (states v))"
      and eq: "name (heap v ! x) = name (heap v ! y)"
    from val[OF x] obtain k where k: "(k, x) \<in> set (states v)" by blast
    from val[OF y] obtain k' where k': "(k', y) \<in> set (states v)" by blast
    from ent[OF k] ent[OF k'] eq have "k = k'" by simp
    with map_of_is_SomeI[OF dk k] map_of_is_SomeI[OF dk k'] show "x = y" by simp
  qed
  show "\<forall>q \<in> set (dict_values (states v)). \<forall>a t.
           map_of (transitions (heap v ! q)) a = Some t \<longrightarrow>
           t \<in> set (dict_values (states v)) \<and>
           a \<in> set (sorted_alphabet (heap v) (states v))"
  proof (intro ballI allI impI)
    fix q a t
    assume q: "q \<in> set (dict_values (states v))"
      and m: "map_of (transitions (heap v ! q)) a = Some t"
    from map_of_SomeD[OF m] have "t \<in> set (dict_values (transitions (heap v ! q)))"
      by (force simp: dict_values_def)
    with nd q have "t \<in> set (dict_values (states v))"
      unfolding no_dangling_def by blast
    with sorted_alphabet_keys[OF q m]
    show "t \<in> set (dict_values (states v)) \<and> a \<in> set (sorted_alphabet (heap v) (states v))"
      by simp
  qed
  from st show "\<exists>s. start_state v = Some s \<and> s \<in> set (dict_values (states v))"
    by (cases "start_state v") simp_all
qed

lemma simulated_by_fields:
  assumes "simulated_by h S H \<mu>"
    and "\<forall>x. is_accepting (H' ! x) = is_accepting (H ! x) \<and>
             transitions (H' ! x) = transitions (H ! x)"
  shows "simulated_by h S H' \<mu>"
  using assms unfolding simulated_by_def by simp

lemma minimize_dfa_result:
  assumes wf: "well_formed v" and so: "set_orders v na acc"
  shows "\<exists>R H' D' \<mu> s ms.
      refine_loop (heap v) (sorted_alphabet (heap v) (states v))
          (initial_partitions na acc) [] = Some R \<and>
      minimize_dfa na acc v = Some (H', D') \<and>
      start_state v = Some s \<and> s \<in> set (dict_values (states v)) \<and>
      \<mu> = map_of (original_to_minimized (build_minimized (heap v) R)) \<and>
      \<mu> s = Some ms \<and>
      find_new_start (start_state v) R (original_to_minimized (build_minimized (heap v) R))
        = Some ms \<and>
      name (H' ! ms) = ''START'' \<and> map_of D' ''START'' = Some ms \<and>
      find (\<lambda>r. name (H' ! r) = ''START'') (dict_values D') = Some ms \<and>
      simulated_by (heap v) (set (dict_values (states v))) H' \<mu>"
proof -
  let ?h = "heap v" and ?S = "set (dict_values (states v))"
  let ?al = "sorted_alphabet (heap v) (states v)"
  let ?P0 = "initial_partitions na acc"
  note wff = well_formed_facts[OF wf]
  note sof = set_orders_facts[OF so]
  from refine_loop_initial[of ?h ?al na acc] obtain n where
    loop: "refine_loop ?h ?al ?P0 [] = Some ((refine_round ?h ?al ^^ n) ?P0)"
    and fp: "refine_round ?h ?al ((refine_round ?h ?al ^^ n) ?P0) = (refine_round ?h ?al ^^ n) ?P0"
    by blast
  define R where "R = (refine_round ?h ?al ^^ n) ?P0"
  have ms: "mset (all_members R) = mset (all_members ?P0)"
    unfolding R_def by (rule rounds_members)
  from mset_eq_imp_distinct_iff[OF ms] sof(1) have dist: "distinct (all_members R)" by simp
  from mset_eq_setD[OF ms] sof(2) have cover: "set (all_members R) = ?S" by simp
  have hom: "homogeneous ?h R"
    unfolding R_def by (rule rounds_homogeneous[OF sof(3)])
  have st: "stable ?h ?al R"
    by (rule fixed_point_stable) (simp add: R_def fp)
  have live: "live_blocks ?h R"
    unfolding live_blocks_def
  proof (intro ballI)
    fix p x assume "p \<in> set R" "x \<in> set (members p)"
    then have "x \<in> set (all_members R)" unfolding in_all_members by blast
    with cover wff(1) show "x < length ?h" by simp
  qed
  from wff(5) obtain s where s: "start_state v = Some s" "s \<in> ?S" by blast
  from s(2) cover have sR: "s \<in> set (all_members R)" by simp
  from wff(3) cover have names: "inj_on (\<lambda>q. name (?h ! q)) (set (all_members R))" by simp
  let ?B = "build_minimized ?h R"
  from fix_start_result[OF live dist names sR] obtain H' D' ms where
    fs: "fix_start (Some s) R ?B = (H', D')"
    and mu: "map_of (original_to_minimized ?B) s = Some ms"
    and fns: "find_new_start (Some s) R (original_to_minimized ?B) = Some ms"
    and same: "\<forall>x. is_accepting (H' ! x) = is_accepting (m_heap ?B ! x) \<and>
           transitions (H' ! x) = transitions (m_heap ?B ! x)"
    and nm: "name (H' ! ms) = ''START''" and key: "map_of D' ''START'' = Some ms"
    and fnd: "find (\<lambda>r. name (H' ! r) = ''START'') (dict_values D') = Some ms"
    by blast
  have sim: "simulated_by ?h ?S (m_heap ?B) (map_of (original_to_minimized ?B))"
    by (rule build_simulates[OF live dist cover hom st wff(2) wff(4)])
  have sim': "simulated_by ?h ?S H' (map_of (original_to_minimized ?B))"
    by (rule simulated_by_fields[OF sim same])
  have md: "minimize_dfa na acc v = Some (H', D')"
    using loop fs s(1) by (simp add: minimize_dfa_def R_def)
  from loop have loopR: "refine_loop ?h ?al ?P0 [] = Some R" by (simp add: R_def)
  from loopR md s mu fns nm key fnd sim' show ?thesis
    by (intro exI[of _ R] exI[of _ H'] exI[of _ D']
        exI[of _ "map_of (original_to_minimized ?B)"] exI[of _ s] exI[of _ ms]) simp
qed

lemma on_minimize_button_click_result:
  assumes wf: "well_formed v" and so: "set_orders v na acc"
  shows "\<exists>R H' D' \<mu> s ms.
      refine_loop (heap v) (sorted_alphabet (heap v) (states v))
          (initial_partitions na acc) [] = Some R \<and>
      minimize_dfa na acc v = Some (H', D') \<and>
      on_minimize_button_click na acc v
        = Some (v\<lparr>heap := H', states := D', start_state := Some ms\<rparr>) \<and>
      start_state v = Some s \<and> s \<in> set (dict_values (states v)) \<and> \<mu> s = Some ms \<and>
      find_new_start (start_state v) R (original_to_minimized (build_minimized (heap v) R))
        = Some ms \<and>
      name (H' ! ms) = ''START'' \<and> map_of D' ''START'' = Some ms \<and>
      find (\<lambda>r. name (H' ! r) = ''START'') (dict_values D') = Some ms \<and>
      simulated_by (heap v) (set (dict_values (states v))) H' \<mu>"
proof -
  from minimize_dfa_result[OF wf so] obtain R H' D' \<mu> s ms where
    r: "refine_loop (heap v) (sorted_alphabet (heap v) (states v))
          (initial_partitions na acc) [] = Some R"
      "minimize_dfa na acc v = Some (H', D')"
      "start_state v = Some s" "s \<in> set (dict_values (states v))" "\<mu> s = Some ms"
      "find_new_start (start_state v) R (original_to_minimized (build_minimized (heap v) R))
        = Some ms"
      "name (H' ! ms) = ''START''" "map_of D' ''START'' = Some ms"
      "find (\<lambda>r. name (H' ! r) = ''START'') (dict_values D') = Some ms"
      "simulated_by (heap v) (set (dict_values (states v))) H' \<mu>"
    by blast
  from r(2,9) have "on_minimize_button_click na acc v
        = Some (v\<lparr>heap := H', states := D', start_state := Some ms\<rparr>)"
    by (simp add: on_minimize_button_click_def)
  with r show ?thesis by blast
qed

text \<open>
  Claim C1: for every well-formed automaton, whatever the order in which Python iterates
  the two initial sets, Minimize DFA succeeds and the resulting automaton gives on every
  symbol sequence the same outcome as the original one: pressing Step any number of times
  after a reset reports the same first verdict, accept or reject, or none in both. (For a
  non-empty sequence and a non-empty token list a verdict is reported within as many steps
  as the sequence has symbols, see \<open>simulate_reports_verdict\<close>.)
\<close>

theorem minimize_preserves_verdicts:
  "well_formed v \<and> set_orders v na acc \<longrightarrow>
     (\<exists>v'. on_minimize_button_click na acc v = Some v' \<and>
           (\<forall>n w. simulate n v' w = simulate n v w))"
proof
  assume a: "well_formed v \<and> set_orders v na acc"
  then have wf: "well_formed v" and so: "set_orders v na acc" by simp_all
  from on_minimize_button_click_result[OF wf so] obtain H' D' \<mu> s ms where
    click: "on_minimize_button_click na acc v
        = Some (v\<lparr>heap := H', states := D', start_state := Some ms\<rparr>)"
    and s: "start_state v = Some s" "s \<in> set (dict_values (states v))" and mu: "\<mu> s = Some ms"
    and sim: "simulated_by (heap v) (set (dict_values (states v))) H' \<mu>"
    by blast
  let ?v' = "v\<lparr>heap := H', states := D', start_state := Some ms\<rparr>"
  have "simulate n ?v' w = simulate n v w" for n w
  proof -
    let ?u = "reset_animation (v\<lparr>animation_sequence := w\<rparr>)"
    have u: "heap ?u = heap v" "start_state ?u = Some s" "current_state ?u = Some s"
      using s(1) by (simp_all add: reset_animation_def)
    have eq: "reset_animation (?v'\<lparr>animation_sequence := w\<rparr>) = lift H' D' \<mu> s ?u"
      using s(1) mu by (simp add: lift_def reset_animation_def)
    from sim u(1) have sim': "simulated_by (heap ?u) (set (dict_values (states v))) H' \<mu>"
      by simp
    have cur: "\<forall>q. current_state ?u = Some q \<longrightarrow> q \<in> set (dict_values (states v))"
      using u(3) s(2) by simp
    from run_lift[OF sim' u(2) s(2) cur] show ?thesis
      unfolding simulate_def eq .
  qed
  with click show "\<exists>v'. on_minimize_button_click na acc v = Some v' \<and>
           (\<forall>n w. simulate n v' w = simulate n v w)"
    by blast
qed

lemma scenario_A_well_formed: "well_formed scenario_A"
  by (simp add: well_formed_def scenario_A_def no_dangling_def dict_values_def new_DFAState_def)

lemma scenario_A_set_orders: "set_orders scenario_A [0] [1, 2]"
  by (simp add: set_orders_def scenario_A_def dict_values_def new_DFAState_def)

theorem minimize_preserves_verdicts_witness:
  "well_formed scenario_A \<and> set_orders scenario_A [0] [1, 2] \<and>
   (\<exists>v'. on_minimize_button_click [0] [1, 2] scenario_A = Some v' \<and>
         simulate 1 v' [''a''] = Some True \<and> simulate 1 v' [''c''] = Some False \<and>
         simulate 2 v' [''b'', ''a''] = Some False)"
proof -
  have 1: "simulate 1 scenario_A [''a''] = Some True"
    by (simp add: simulate_def scenario_A_def step_animation_def reset_animation_def
        new_DFAState_def Let_def)
  have 2: "simulate 1 scenario_A [''c''] = Some False"
    by (simp add: simulate_def scenario_A_def step_animation_def reset_animation_def
        new_DFAState_def Let_def)
  have 3: "simulate 2 scenario_A [''b'', ''a''] = Some False"
    by (simp add: simulate_def scenario_A_def step_animation_def reset_animation_def
        new_DFAState_def Let_def numeral_2_eq_2)
  from minimize_preserves_verdicts[of scenario_A "[0]" "[1, 2]"]
    scenario_A_well_formed scenario_A_set_orders
  obtain v' where "on_minimize_button_click [0] [1, 2] scenario_A = Some v'"
    "\<forall>n w. simulate n v' w = simulate n scenario_A w"
    by blast
  with 1 2 3 scenario_A_well_formed scenario_A_set_orders show ?thesis
    by metis
qed

text \<open>
  Claim C6, amended: the minimizer does rename by a reserved name. For every well-formed
  automaton, the minimized state built for the block of the original start state carries
  the name START when \<^verbatim>\<open>minimize_dfa\<close> returns and is stored under the key START; the result
  of \<^verbatim>\<open>minimize_dfa\<close> holds no reference to it, and \<^verbatim>\<open>_on_minimize_button_click\<close> takes as start
  state the first state of the returned dictionary whose name is START, which is that state.
\<close>

theorem minimized_start_named_START:
  "well_formed v \<and> set_orders v na acc \<longrightarrow>
     (\<exists>R h' minimized r v'.
        refine_loop (heap v) (sorted_alphabet (heap v) (states v))
            (initial_partitions na acc) [] = Some R \<and>
        minimize_dfa na acc v = Some (h', minimized) \<and>
        find_new_start (start_state v) R (original_to_minimized (build_minimized (heap v) R))
          = Some r \<and>
        name (h' ! r) = ''START'' \<and> map_of minimized ''START'' = Some r \<and>
        on_minimize_button_click na acc v = Some v' \<and>
        start_state v' = find (\<lambda>x. name (h' ! x) = ''START'') (dict_values minimized) \<and>
        start_state v' = Some r)"
proof
  assume a: "well_formed v \<and> set_orders v na acc"
  then have wf: "well_formed v" and so: "set_orders v na acc" by simp_all
  from on_minimize_button_click_result[OF wf so] obtain R H' D' ms where
    r: "refine_loop (heap v) (sorted_alphabet (heap v) (states v))
          (initial_partitions na acc) [] = Some R"
      "minimize_dfa na acc v = Some (H', D')"
      "on_minimize_button_click na acc v
        = Some (v\<lparr>heap := H', states := D', start_state := Some ms\<rparr>)"
      "find_new_start (start_state v) R (original_to_minimized (build_minimized (heap v) R))
        = Some ms"
      "name (H' ! ms) = ''START''" "map_of D' ''START'' = Some ms"
      "find (\<lambda>r. name (H' ! r) = ''START'') (dict_values D') = Some ms"
    by blast
  then show "\<exists>R h' minimized r v'.
        refine_loop (heap v) (sorted_alphabet (heap v) (states v))
            (initial_partitions na acc) [] = Some R \<and>
        minimize_dfa na acc v = Some (h', minimized) \<and>
        find_new_start (start_state v) R (original_to_minimized (build_minimized (heap v) R))
          = Some r \<and>
        name (h' ! r) = ''START'' \<and> map_of minimized ''START'' = Some r \<and>
        on_minimize_button_click na acc v = Some v' \<and>
        start_state v' = find (\<lambda>x. name (h' ! x) = ''START'') (dict_values minimized) \<and>
        start_state v' = Some r"
    by (intro exI[of _ R] exI[of _ H'] exI[of _ D'] exI[of _ ms]
        exI[of _ "v\<lparr>heap := H', states := D', start_state := Some ms\<rparr>"]) simp
qed

lemma start_and_X_well_formed: "well_formed start_and_X"
  by (simp add: well_formed_def start_and_X_def no_dangling_def dict_values_def new_DFAState_def)

lemma start_and_X_set_orders: "set_orders start_and_X [0, 1] []"
  by (simp add: set_orders_def start_and_X_def dict_values_def new_DFAState_def)

theorem minimized_start_named_START_witness:
  "well_formed start_and_X \<and> set_orders start_and_X [0, 1] [] \<and>
   (\<exists>h' minimized r v'.
        minimize_dfa [0, 1] [] start_and_X = Some (h', minimized) \<and>
        name (h' ! r) = ''START'' \<and> map_of minimized ''START'' = Some r \<and>
        on_minimize_button_click [0, 1] [] start_and_X = Some v' \<and>
        start_state v' = Some r)"
  using minimized_start_named_START[of start_and_X "[0, 1]" "[]"]
    start_and_X_well_formed start_and_X_set_orders
  by blast

lemma run_reports_verdict:
  assumes "animation_sequence u \<noteq> []" and "tokens u \<noteq> []"
    and "animation_step u < length (animation_sequence u)"
    and "length (animation_sequence u) - animation_step u \<le> n"
  shows "run n u \<noteq> None"
  using assms
proof (induction n arbitrary: u)
  case 0
  then show ?case by simp
next
  case (Suc n)
  let ?u' = "u\<lparr>current_state := next_state u, animation_step := Suc (animation_step u)\<rparr>"
  note su = step_animation_inside[OF Suc.prems(1,2,3)]
  show ?case
  proof (cases "length (animation_sequence u) \<le> Suc (animation_step u) \<or> next_state u = None")
    case True
    with su show ?thesis by simp
  next
    case False
    with su have s: "step_animation u = (?u', None)" by simp
    from False Suc.prems have "run n ?u' \<noteq> None"
      by (intro Suc.IH) simp_all
    with s show ?thesis by simp
  qed
qed

lemma simulate_reports_verdict:
  assumes "w \<noteq> []" and "tokens v \<noteq> []"
  shows "simulate (length w) v w \<noteq> None"
  unfolding simulate_def
  using assms by (intro run_reports_verdict) (simp_all add: reset_animation_def)

section \<open>Minimizing twice, and the name of the start state\<close>

text \<open>
  Claim C5: minimizing twice gives as many states as minimizing once. For the automaton
  with the two states START and X, both non-accepting and without transitions, the first
  minimization merges them into one state but returns a dictionary with two keys for it,
  "START, X" and "START": the branch that adds the key START does not delete the generated
  key, as the sibling branch does. The second minimization returns one key. The automaton
  is well formed (\<open>start_and_X_well_formed\<close>).
\<close>

theorem minimize_twice_state_count:
  "set_orders start_and_X [0, 1] [] \<and>
   on_minimize_button_click [0, 1] [] start_and_X
     = Some (start_and_X
         \<lparr>heap := heap start_and_X @ [new_DFAState ''START'' False],
          states := [(''START, X'', 2), (''START'', 2)], start_state := Some 2\<rparr>) \<and>
   length [(''START, X'', 2 :: ref), (''START'', 2)] = 2 \<and>
   set_orders
     (start_and_X
         \<lparr>heap := heap start_and_X @ [new_DFAState ''START'' False],
          states := [(''START, X'', 2), (''START'', 2)], start_state := Some 2\<rparr>) [2] [] \<and>
   on_minimize_button_click [2] []
     (start_and_X
         \<lparr>heap := heap start_and_X @ [new_DFAState ''START'' False],
          states := [(''START, X'', 2), (''START'', 2)], start_state := Some 2\<rparr>)
     = Some (start_and_X
         \<lparr>heap := heap start_and_X @ [new_DFAState ''START'' False, new_DFAState ''START'' False],
          states := [(''START'', 3)], start_state := Some 3\<rparr>) \<and>
   length [(''START'', 3 :: ref)] = 1 \<and>
   on_minimize_button_click [1, 0] [] start_and_X = on_minimize_button_click [0, 1] [] start_and_X"
  by code_simp

text \<open>
  Claim C6, as stated: no state of the minimized result has its name replaced by a
  reserved literal, and the start state is never found by its name. For the automaton with
  the states START and X the merged state is created with the name "START, X" and returned
  with the name START; the result holds the object store and the dictionary only, and the
  start state is the one found by searching the dictionary for the name START.
\<close>

theorem minimizer_renames_start_counterexample:
  "set_orders start_and_X [0, 1] [] \<and>
   refine_loop (heap start_and_X) (sorted_alphabet (heap start_and_X) (states start_and_X))
       (initial_partitions [0, 1] []) []
     = Some [PyList [0, 1], PySet []] \<and>
   name (m_heap (build_minimized (heap start_and_X) [PyList [0, 1], PySet []]) ! 2) = ''START, X'' \<and>
   minimize_dfa [0, 1] [] start_and_X
     = Some (heap start_and_X @ [new_DFAState ''START'' False],
             [(''START, X'', 2), (''START'', 2)]) \<and>
   name ((heap start_and_X @ [new_DFAState ''START'' False]) ! 2) = ''START'' \<and>
   find (\<lambda>r. name ((heap start_and_X @ [new_DFAState ''START'' False]) ! r) = ''START'')
        (dict_values [(''START, X'', 2), (''START'', 2)]) = Some 2"
  by code_simp

end
